theory Spec2Isabelle
  imports Main "HOL-Library.Word"
begin

section \<open>Data model of the STM32F4xx USART driver\<close>

text \<open>
  The driver keeps every ring buffer inside one static array, \<open>masterBuffer\<close>, and
  describes each buffer by a \<open>USARTBuffer\<close> structure of 16-bit offsets into that array.
  The fields are \<open>uint16_t\<close> in the source and \<open>16 word\<close> here. C promotes
  \<open>uint16_t\<close> operands to \<open>int\<close> before it adds or compares them, so a sum that is
  compared (\<open>base + length == tail + 1\<close>) is computed on \<open>unat\<close> values without
  wrap-around, while a result stored back into a \<open>uint16_t\<close> is truncated, which is
  exactly arithmetic on \<open>16 word\<close>. The field \<open>length\<close> of the source is
  \<open>length_bytes\<close> here.
\<close>

type_synonym uint16_t = "16 word"
type_synonym byte = "8 word"

text \<open>
  The mutex behind a \<open>SemaphoreHandle_t\<close> belongs to the RTOS kernel. The model is
  sequential: a mutex is either available or taken; taking an available mutex succeeds,
  taking a taken one runs into the time-out and fails; giving makes it available.
\<close>

datatype SemaphoreState = Available | Taken

definition xSemaphoreTake :: "SemaphoreState \<Rightarrow> bool \<times> SemaphoreState" where
  "xSemaphoreTake m = (case m of Available \<Rightarrow> (True, Taken) | Taken \<Rightarrow> (False, Taken))"

definition xSemaphoreGive :: "SemaphoreState \<Rightarrow> SemaphoreState" where
  "xSemaphoreGive m = Available"

record USARTBuffer =
  base :: uint16_t
  length_bytes :: uint16_t
  head :: uint16_t
  tail :: uint16_t
  fillLevel :: uint16_t
  highWater :: uint16_t
  mutex :: SemaphoreState

text \<open>
  Of the peripheral only the transmit-empty interrupt enable is kept, the one bit the
  write path sets through \<open>USART_ITConfig\<close>.
\<close>

record USART =
  enabled :: bool
  txBuffer :: USARTBuffer
  rxBuffer :: USARTBuffer
  txeInterrupt :: bool

text \<open>
  \<open>memcpy dst d src s n\<close> copies \<open>n\<close> bytes from \<open>src\<close> at offset \<open>s\<close> to
  \<open>dst\<close> at offset \<open>d\<close>. Source and destination are always different arrays in
  the driver (the master buffer and a caller's buffer). A read past the end of a list
  is an unspecified byte, as it is in C; a store past the end of a list is dropped, here
  and in every \<open>xs[i := v]\<close> below.
\<close>

primrec memcpy :: "byte list \<Rightarrow> nat \<Rightarrow> byte list \<Rightarrow> nat \<Rightarrow> nat \<Rightarrow> byte list" where
  "memcpy dst d src s 0 = dst"
| "memcpy dst d src s (Suc n) = (memcpy dst d src s n)[d + n := src ! (s + n)]"

text \<open>An \<open>int\<close> expression passed where C expects a \<open>size_t\<close> (32 bits on the target).\<close>

definition size_t :: "int \<Rightarrow> nat" where
  "size_t x = nat (x mod 2 ^ 32)"

text \<open>A store through an \<open>int\<close> index; an index outside the array leaves it as it is.\<close>

definition store_at :: "byte list \<Rightarrow> int \<Rightarrow> byte \<Rightarrow> byte list" where
  "store_at xs i v = (if 0 \<le> i \<and> i < int (length xs) then xs[nat i := v] else xs)"

section \<open>Buffer functions\<close>

text \<open>
  \<open>bufferInit\<close> places the buffer at the allocation cursor of the master buffer and
  advances the cursor by the buffer's length; the length itself was set by the caller.
\<close>

definition bufferInit :: "USARTBuffer \<Rightarrow> uint16_t \<Rightarrow> USARTBuffer \<times> uint16_t" where
  "bufferInit buf masterBufferAllocatedBytes =
     (buf\<lparr>base := masterBufferAllocatedBytes,
          head := masterBufferAllocatedBytes,
          tail := masterBufferAllocatedBytes,
          fillLevel := 0,
          highWater := 0,
          mutex := Available\<rparr>,
      masterBufferAllocatedBytes + length_bytes buf)"

text \<open>
  \<open>bufferPush\<close> spins forever (\<open>while(true);\<close>) when the mutex cannot be taken:
  the result \<open>None\<close>.
\<close>

definition bufferPush :: "byte list \<Rightarrow> USARTBuffer \<Rightarrow> byte \<Rightarrow> (byte list \<times> USARTBuffer) option" where
  "bufferPush masterBuffer buf data =
     (case xSemaphoreTake (mutex buf) of
        (False, m) \<Rightarrow> None
      | (True, m) \<Rightarrow>
          let mb = masterBuffer[unat (tail buf) := data];
              b0 = buf\<lparr>mutex := m\<rparr>;
              b1 = (if unat (base b0) + unat (length_bytes b0) = unat (tail b0) + 1
                    then b0\<lparr>tail := base b0\<rparr>
                    else b0\<lparr>tail := tail b0 + 1\<rparr>);
              b2 = (if \<not> (fillLevel b1 = length_bytes b1)
                    then b1\<lparr>fillLevel := fillLevel b1 + 1\<rparr>
                    else b1);
              b3 = (if fillLevel b2 > highWater b2
                    then b2\<lparr>highWater := fillLevel b2\<rparr>
                    else b2)
          in Some (mb, b3\<lparr>mutex := xSemaphoreGive (mutex b3)\<rparr>))"

text \<open>\<open>bufferPop\<close> returns the buffer, the success flag and the byte stored through \<open>data\<close>.\<close>

definition bufferPop :: "byte list \<Rightarrow> USARTBuffer \<Rightarrow> USARTBuffer \<times> bool \<times> byte option" where
  "bufferPop masterBuffer buf =
     (case xSemaphoreTake (mutex buf) of
        (False, m) \<Rightarrow> (buf, False, None)
      | (True, m) \<Rightarrow>
          let b0 = buf\<lparr>mutex := m\<rparr> in
          if fillLevel b0 \<noteq> 0 then
            let data = masterBuffer ! unat (head b0);
                b1 = (if unat (base b0) + unat (length_bytes b0) = unat (head b0) + 1
                      then b0\<lparr>head := base b0\<rparr>
                      else b0\<lparr>head := head b0 + 1\<rparr>);
                b2 = b1\<lparr>fillLevel := fillLevel b1 - 1\<rparr>
            in (b2\<lparr>mutex := xSemaphoreGive (mutex b2)\<rparr>, True, Some data)
          else (b0\<lparr>mutex := xSemaphoreGive (mutex b0)\<rparr>, False, None))"

text \<open>
  \<open>bufferPeek\<close> returns \<open>0xFF\<close> as its error value. The index expressions
  \<open>base + head + depth\<close> and \<open>base + depth - bytesAfterHeadBeforeEnd\<close> are
  \<open>int\<close> expressions in C.
\<close>

definition bufferPeek :: "byte list \<Rightarrow> USARTBuffer \<Rightarrow> uint16_t \<Rightarrow> USARTBuffer \<times> byte" where
  "bufferPeek masterBuffer buf depth =
     (case xSemaphoreTake (mutex buf) of
        (False, m) \<Rightarrow> (buf, 0xFF)
      | (True, m) \<Rightarrow>
          let b0 = buf\<lparr>mutex := m\<rparr> in
          if fillLevel b0 > depth then (b0\<lparr>mutex := xSemaphoreGive (mutex b0)\<rparr>, 0xFF)
          else
            let bytesAfterHeadBeforeEnd = (base b0 + length_bytes b0) - head b0;
                retVal = (if bytesAfterHeadBeforeEnd \<ge> depth
                          then masterBuffer ! (unat (base b0) + unat (head b0) + unat depth)
                          else masterBuffer ! nat (uint (base b0) + uint depth
                                                   - uint bytesAfterHeadBeforeEnd))
            in (b0\<lparr>mutex := xSemaphoreGive (mutex b0)\<rparr>, retVal))"

section \<open>Driver functions on one channel\<close>

text \<open>
  Each function takes the master buffer and the channel and returns both, updated,
  with the function's return value.
\<close>

definition writeBytes :: "byte list \<Rightarrow> USART \<Rightarrow> byte list \<Rightarrow> uint16_t \<Rightarrow> byte list \<times> USART \<times> uint16_t" where
  "writeBytes masterBuffer usart bytes numBytes =
     (if numBytes > length_bytes (txBuffer usart) then (masterBuffer, usart, 0)
      else case xSemaphoreTake (mutex (txBuffer usart)) of
        (False, m) \<Rightarrow> (masterBuffer, usart, 0)
      | (True, m) \<Rightarrow>
          let t0 = (txBuffer usart)\<lparr>mutex := m\<rparr>;
              spaceAfterTail = base t0 + length_bytes t0 - tail t0;
              (mb, t1) =
                (if spaceAfterTail \<ge> numBytes then
                   (memcpy masterBuffer (unat (tail t0)) bytes 0 (unat numBytes),
                    if numBytes = spaceAfterTail then t0\<lparr>tail := base t0\<rparr>
                    else t0\<lparr>tail := tail t0 + numBytes\<rparr>)
                 else
                   let overflowBytes = numBytes - spaceAfterTail;
                       mb1 = memcpy masterBuffer (unat (tail t0)) bytes 0 (unat spaceAfterTail);
                       mb2 = memcpy mb1 (unat (base t0)) bytes (unat spaceAfterTail)
                               (unat overflowBytes)
                   in (mb2, t0\<lparr>tail := base t0 + overflowBytes\<rparr>));
              t2 = (if unat (fillLevel t1) + unat numBytes \<le> unat (length_bytes t1)
                    then t1\<lparr>fillLevel := fillLevel t1 + numBytes\<rparr>
                    else t1\<lparr>fillLevel := length_bytes t1\<rparr>);
              t3 = (if highWater t2 < fillLevel t2 then t2\<lparr>highWater := fillLevel t2\<rparr> else t2);
              t4 = t3\<lparr>mutex := xSemaphoreGive (mutex t3)\<rparr>
          in (mb, usart\<lparr>txBuffer := t4, txeInterrupt := True\<rparr>, numBytes))"

text \<open>
  \<open>strlen\<close>: the number of bytes before the first NUL of the caller's string.
\<close>

definition strlen :: "byte list \<Rightarrow> nat" where
  "strlen line = length (takeWhile (\<lambda>c. c \<noteq> 0) line)"

text \<open>
  \<open>writeLine\<close> computes \<open>length - 1\<close> on \<open>size_t\<close> and passes it as a
  \<open>uint16_t\<close>; it treats a zero return of \<open>writeBytes\<close> as failure. The result is
  \<open>None\<close> when \<open>bufferPush\<close> does not return.
\<close>

definition writeLine :: "byte list \<Rightarrow> USART \<Rightarrow> byte list \<Rightarrow> (byte list \<times> USART \<times> uint16_t) option" where
  "writeLine masterBuffer usart line =
     (let len = strlen line in
      if len > unat (length_bytes (txBuffer usart)) then Some (masterBuffer, usart, 0)
      else case writeBytes masterBuffer usart line (word_of_nat (size_t (int len - 1))) of
        (mb, u, n) \<Rightarrow>
          if n \<noteq> 0 then
            (case bufferPush mb (txBuffer u) 0x0A of
               None \<Rightarrow> None
             | Some (mb', t) \<Rightarrow> Some (mb', u\<lparr>txBuffer := t\<rparr>, word_of_nat len))
          else Some (mb, u, 0))"

text \<open>
  \<open>rxBytesAvailable\<close> takes the mutex of the receive buffer and gives the mutex of
  the transmit buffer.
\<close>

definition rxBytesAvailable :: "USART \<Rightarrow> USART \<times> uint16_t" where
  "rxBytesAvailable usart =
     (case xSemaphoreTake (mutex (rxBuffer usart)) of
        (False, m) \<Rightarrow> (usart, 0)
      | (True, m) \<Rightarrow>
          let u0 = usart\<lparr>rxBuffer := (rxBuffer usart)\<lparr>mutex := m\<rparr>\<rparr>;
              retVal = fillLevel (rxBuffer u0)
          in (u0\<lparr>txBuffer := (txBuffer u0)\<lparr>mutex := xSemaphoreGive (mutex (txBuffer u0))\<rparr>\<rparr>,
              retVal))"

text \<open>
  The read functions return the channel, the caller's buffer \<open>buf\<close> after the copy,
  and the return value; they never write to the master buffer.
\<close>

definition readBytes :: "byte list \<Rightarrow> USART \<Rightarrow> byte list \<Rightarrow> uint16_t \<Rightarrow> USART \<times> byte list \<times> uint16_t" where
  "readBytes masterBuffer usart buf numBytes =
     (case xSemaphoreTake (mutex (rxBuffer usart)) of
        (False, m) \<Rightarrow> (usart, buf, 0)
      | (True, m) \<Rightarrow>
          let r0 = (rxBuffer usart)\<lparr>mutex := m\<rparr>;
              bytesToRead = (if fillLevel r0 \<ge> numBytes then numBytes else fillLevel r0);
              bufferAfterHead = base r0 + length_bytes r0 - head r0;
              (buf', r1) =
                (if bytesToRead \<le> bufferAfterHead then
                   (memcpy buf 0 masterBuffer (unat (head r0)) (unat bytesToRead),
                    if bytesToRead = bufferAfterHead then r0\<lparr>head := base r0\<rparr>
                    else r0\<lparr>head := head r0 + bytesToRead\<rparr>)
                 else
                   let bytesBeforeBufferEnd = base r0 + length_bytes r0 - head r0;
                       secondBlockLength = bytesToRead - bytesBeforeBufferEnd;
                       buf1 = memcpy buf 0 masterBuffer (unat (head r0))
                                (unat bytesBeforeBufferEnd);
                       buf2 = memcpy buf1 (unat bytesBeforeBufferEnd) masterBuffer
                                (unat (base r0)) (unat secondBlockLength)
                   in (buf2, r0\<lparr>head := base r0 + secondBlockLength\<rparr>));
              r2 = r1\<lparr>fillLevel := fillLevel r1 - bytesToRead\<rparr>;
              r3 = r2\<lparr>mutex := xSemaphoreGive (mutex r2)\<rparr>
          in (usart\<lparr>rxBuffer := r3\<rparr>, buf', bytesToRead))"

text \<open>
  The scan loop shared by \<open>readLine\<close> and \<open>readLineTruncate\<close>:
  \<open>for(i = 0; i < fillLevel; i++)\<close>, left by \<open>break\<close> at the first \<open>'\n'\<close>.
  It returns \<open>foundLineEnding\<close> and the final \<open>i\<close> and \<open>bufPtr\<close>. The pointer
  wraps only once it equals \<open>base + length\<close>.
\<close>

function scanLineEnding :: "byte list \<Rightarrow> USARTBuffer \<Rightarrow> uint16_t \<Rightarrow> uint16_t \<Rightarrow> bool \<times> uint16_t \<times> uint16_t" where
  "scanLineEnding masterBuffer rx i bufPtr =
     (if i < fillLevel rx then
        (if masterBuffer ! unat bufPtr = 0x0A then (True, i, bufPtr)
         else scanLineEnding masterBuffer rx (i + 1)
                (if unat bufPtr = unat (base rx) + unat (length_bytes rx) then base rx
                 else bufPtr + 1))
      else (False, i, bufPtr))"
  by pat_completeness auto
termination
proof (relation "measure (\<lambda>(masterBuffer, rx, i, bufPtr). unat (fillLevel rx) - unat i)")
  show "wf (measure (\<lambda>(masterBuffer, rx, i, bufPtr). unat (fillLevel rx) - unat i))"
    by simp
next
  fix masterBuffer :: "byte list" and rx :: USARTBuffer and i bufPtr :: uint16_t
  assume lt: "i < fillLevel rx"
  then have "unat i < unat (fillLevel rx)"
    by unat_arith
  moreover from lt have "unat (i + 1) = unat i + 1"
    by unat_arith
  ultimately show "((masterBuffer, rx, i + 1,
                     if unat bufPtr = unat (base rx) + unat (length_bytes rx) then base rx
                     else bufPtr + 1),
                    (masterBuffer, rx, i, bufPtr))
                   \<in> measure (\<lambda>(masterBuffer, rx, i, bufPtr). unat (fillLevel rx) - unat i)"
    by simp
qed

definition readLine :: "byte list \<Rightarrow> USART \<Rightarrow> byte list \<Rightarrow> USART \<times> byte list \<times> uint16_t" where
  "readLine masterBuffer usart buf =
     (case xSemaphoreTake (mutex (rxBuffer usart)) of
        (False, m) \<Rightarrow> (usart, buf, 0)
      | (True, m) \<Rightarrow>
          let r0 = (rxBuffer usart)\<lparr>mutex := m\<rparr> in
          if fillLevel r0 \<noteq> 0 then
            (case scanLineEnding masterBuffer r0 0 (head r0) of
               (True, i, bufPtr) \<Rightarrow>
                 let buf1 =
                       (if bufPtr > head r0 then
                          memcpy buf 0 masterBuffer (unat (head r0)) (size_t (uint i - 1))
                        else if bufPtr < head r0 then
                          let bytesToReadAfterHead = base r0 + length_bytes r0 - head r0;
                              b1 = memcpy buf 0 masterBuffer (unat (head r0))
                                     (unat bytesToReadAfterHead)
                          in memcpy b1 (unat bytesToReadAfterHead) masterBuffer (unat (base r0))
                               (size_t ((uint i - 1) - uint bytesToReadAfterHead))
                        else buf);
                     buf2 = store_at buf1 (uint i - 1) 0
                 in (usart\<lparr>rxBuffer := r0\<lparr>mutex := xSemaphoreGive (mutex r0)\<rparr>\<rparr>, buf2, i - 1)
             | (False, i, bufPtr) \<Rightarrow>
                 (usart\<lparr>rxBuffer := r0\<lparr>mutex := xSemaphoreGive (mutex r0)\<rparr>\<rparr>, buf, 0))
          else (usart\<lparr>rxBuffer := r0\<rparr>, buf, 0))"

definition readLineTruncate :: "byte list \<Rightarrow> USART \<Rightarrow> byte list \<Rightarrow> uint16_t \<Rightarrow> USART \<times> byte list \<times> uint16_t" where
  "readLineTruncate masterBuffer usart buf maxLen =
     (case xSemaphoreTake (mutex (rxBuffer usart)) of
        (False, m) \<Rightarrow> (usart, buf, 0)
      | (True, m) \<Rightarrow>
          let r0 = (rxBuffer usart)\<lparr>mutex := m\<rparr> in
          if fillLevel r0 \<noteq> 0 then
            (case scanLineEnding masterBuffer r0 0 (head r0) of
               (True, i0, bufPtr) \<Rightarrow>
                 let i = (if i0 > 0 \<and> uint i0 - 1 > uint maxLen then maxLen + 1 else i0);
                     buf1 =
                       (if bufPtr > head r0 then
                          memcpy buf 0 masterBuffer (unat (head r0)) (size_t (uint i - 1))
                        else if bufPtr < head r0 then
                          let bytesToReadAfterHead = base r0 + length_bytes r0 - head r0;
                              b1 = memcpy buf 0 masterBuffer (unat (head r0))
                                     (unat bytesToReadAfterHead)
                          in memcpy b1 (unat bytesToReadAfterHead) masterBuffer (unat (base r0))
                               (size_t ((uint i - 1) - uint bytesToReadAfterHead))
                        else buf);
                     buf2 = store_at buf1 (uint i - 1) 0
                 in (usart\<lparr>rxBuffer := r0\<lparr>mutex := xSemaphoreGive (mutex r0)\<rparr>\<rparr>, buf2, i - 1)
             | (False, i0, bufPtr) \<Rightarrow>
                 (usart\<lparr>rxBuffer := r0\<lparr>mutex := xSemaphoreGive (mutex r0)\<rparr>\<rparr>, buf, 0))
          else (usart\<lparr>rxBuffer := r0\<rparr>, buf, 0))"

text \<open>
  The buffer bookkeeping of \<open>initUsart\<close>. The size of the master buffer is a
  configuration macro of the application and a parameter here; the result is \<open>None\<close>
  where \<open>initUsart\<close> returns false. The pin, clock and interrupt-controller set-up
  that follows in the source touches nothing of the model.
\<close>

definition initUsart :: "int \<Rightarrow> USART \<Rightarrow> uint16_t \<Rightarrow> uint16_t \<Rightarrow> uint16_t \<Rightarrow> (USART \<times> uint16_t) option" where
  "initUsart MASTER_BUFFER_LENGTH_BYTES usart masterBufferAllocatedBytes
       txBufferSizeBytes rxBufferSizeBytes =
     (if uint rxBufferSizeBytes + uint txBufferSizeBytes
           > MASTER_BUFFER_LENGTH_BYTES - uint masterBufferAllocatedBytes
      then None
      else
        let u1 = usart\<lparr>enabled := True,
                       txBuffer := (txBuffer usart)\<lparr>length_bytes := txBufferSizeBytes\<rparr>,
                       rxBuffer := (rxBuffer usart)\<lparr>length_bytes := rxBufferSizeBytes\<rparr>\<rparr>;
            (t, a1) = bufferInit (txBuffer u1) masterBufferAllocatedBytes;
            (r, a2) = bufferInit (rxBuffer u1) a1
        in Some (u1\<lparr>txBuffer := t, rxBuffer := r\<rparr>, a2))"

section \<open>Sequences of calls\<close>

text \<open>
  The servicing loop pushes every received byte into the receive buffer and pops the
  transmit buffer one byte at a time. \<open>bufferPushAll\<close> is a run of \<open>bufferPush\<close>
  calls on one buffer, \<open>bufferPopN\<close> a run of \<open>n\<close> calls of \<open>bufferPop\<close> that
  collects what each call stored through \<open>data\<close>.
\<close>

fun bufferPushAll :: "byte list \<Rightarrow> USARTBuffer \<Rightarrow> byte list \<Rightarrow> (byte list \<times> USARTBuffer) option" where
  "bufferPushAll masterBuffer buf [] = Some (masterBuffer, buf)"
| "bufferPushAll masterBuffer buf (x # xs) =
     (case bufferPush masterBuffer buf x of
        None \<Rightarrow> None
      | Some (mb, b) \<Rightarrow> bufferPushAll mb b xs)"

fun bufferPopN :: "byte list \<Rightarrow> USARTBuffer \<Rightarrow> nat \<Rightarrow> USARTBuffer \<times> byte option list" where
  "bufferPopN masterBuffer buf 0 = (buf, [])"
| "bufferPopN masterBuffer buf (Suc n) =
     (case bufferPop masterBuffer buf of
        (b, success, data) \<Rightarrow>
          (case bufferPopN masterBuffer b n of (b', ds) \<Rightarrow> (b', data # ds)))"

text \<open>
  The calls that change a channel's buffers, as operations on the pair of master buffer
  and channel. \<open>bufferPush\<close> and \<open>bufferPop\<close> work on either buffer;
  \<open>writeBytes\<close> always works on the transmit buffer and \<open>readBytes\<close> on the receive
  buffer. Each step reports how many bytes the call accepted into a buffer or removed
  from it.
\<close>

datatype side = Tx | Rx

datatype operation =
    Push side byte
  | Pop side
  | WriteBytes "byte list" uint16_t
  | ReadBytes "byte list" uint16_t

datatype outcome = Accepted side nat | Removed side nat

fun buffer_of :: "side \<Rightarrow> USART \<Rightarrow> USARTBuffer" where
  "buffer_of Tx usart = txBuffer usart"
| "buffer_of Rx usart = rxBuffer usart"

fun set_buffer :: "side \<Rightarrow> USARTBuffer \<Rightarrow> USART \<Rightarrow> USART" where
  "set_buffer Tx b usart = usart\<lparr>txBuffer := b\<rparr>"
| "set_buffer Rx b usart = usart\<lparr>rxBuffer := b\<rparr>"

fun step :: "operation \<Rightarrow> byte list \<times> USART \<Rightarrow> ((byte list \<times> USART) \<times> outcome) option" where
  "step (Push sd data) (mb, usart) =
     (case bufferPush mb (buffer_of sd usart) data of
        None \<Rightarrow> None
      | Some (mb', b) \<Rightarrow> Some ((mb', set_buffer sd b usart), Accepted sd 1))"
| "step (Pop sd) (mb, usart) =
     (case bufferPop mb (buffer_of sd usart) of
        (b, success, data) \<Rightarrow>
          Some ((mb, set_buffer sd b usart), Removed sd (if success then 1 else 0)))"
| "step (WriteBytes bytes numBytes) (mb, usart) =
     (case writeBytes mb usart bytes numBytes of
        (mb', usart', n) \<Rightarrow> Some ((mb', usart'), Accepted Tx (unat n)))"
| "step (ReadBytes buf numBytes) (mb, usart) =
     (case readBytes mb usart buf numBytes of
        (usart', buf', n) \<Rightarrow> Some ((mb, usart'), Removed Rx (unat n)))"

text \<open>
  \<open>run\<close> performs the operations in order and returns, for each one, the state after
  it and its outcome; \<open>None\<close> when a \<open>bufferPush\<close> never returns.
\<close>

fun run :: "operation list \<Rightarrow> byte list \<times> USART \<Rightarrow> ((byte list \<times> USART) \<times> outcome) list option" where
  "run [] s = Some []"
| "run (x # xs) s =
     (case step x s of
        None \<Rightarrow> None
      | Some (s', out) \<Rightarrow>
          (case run xs s' of None \<Rightarrow> None | Some tr \<Rightarrow> Some ((s', out) # tr)))"

definition final :: "byte list \<times> USART \<Rightarrow> ((byte list \<times> USART) \<times> outcome) list \<Rightarrow> byte list \<times> USART" where
  "final s tr = (if tr = [] then s else fst (last tr))"

definition visited :: "byte list \<times> USART \<Rightarrow> ((byte list \<times> USART) \<times> outcome) list \<Rightarrow> USART list" where
  "visited s tr = map snd (s # map fst tr)"

section \<open>Concrete channels\<close>

text \<open>
  An entry of \<open>usartList\<close> before \<open>initUsart\<close> has run: static storage, all zero.
  Its mutex handles are null, so nothing can be taken through them.
\<close>

definition unsetBuffer :: USARTBuffer where
  "unsetBuffer = \<lparr>base = 0, length_bytes = 0, head = 0, tail = 0, fillLevel = 0,
                  highWater = 0, mutex = Taken\<rparr>"

definition unsetUSART :: USART where
  "unsetUSART = \<lparr>enabled = False, txBuffer = unsetBuffer, rxBuffer = unsetBuffer,
                 txeInterrupt = False\<rparr>"

text \<open>
  The channel that \<open>initUsart\<close> sets up first in a master buffer of 32 bytes, with a
  transmit and a receive buffer of \<open>n\<close> bytes each.
\<close>

definition channel :: "uint16_t \<Rightarrow> USART" where
  "channel n = fst (the (initUsart 32 unsetUSART 0 n n))"

definition emptyMaster :: "byte list" where
  "emptyMaster = replicate 32 0"

text \<open>
  \<open>received bytes\<close>: the master buffer and \<open>channel 8\<close> after the servicing loop
  has pushed \<open>bytes\<close>, in order, into the receive buffer.
\<close>

definition received :: "byte list \<Rightarrow> byte list \<times> USART" where
  "received bytes =
     (case the (bufferPushAll emptyMaster (rxBuffer (channel 8)) bytes) of
        (mb, r) \<Rightarrow> (mb, (channel 8)\<lparr>rxBuffer := r\<rparr>))"

section \<open>Closed forms of the state changes\<close>

text \<open>
  The pointer and counter updates of the four buffer operations, named so that the
  lemmas below can speak about them. \<open>ptr_inc\<close> is the step of \<open>bufferPush\<close> on
  tail and of \<open>bufferPop\<close> on head; \<open>ptr_add\<close> is the move of tail in
  \<open>writeBytes\<close> and of head in \<open>readBytes\<close>.
\<close>

definition ptr_inc :: "USARTBuffer \<Rightarrow> uint16_t \<Rightarrow> uint16_t" where
  "ptr_inc b p =
     (if unat (base b) + unat (length_bytes b) = unat p + 1 then base b else p + 1)"

definition ptr_add :: "USARTBuffer \<Rightarrow> uint16_t \<Rightarrow> uint16_t \<Rightarrow> uint16_t" where
  "ptr_add b p n =
     (let space = base b + length_bytes b - p in
      if n \<le> space then (if n = space then base b else p + n) else base b + (n - space))"

definition raise_mark :: "uint16_t \<Rightarrow> uint16_t \<Rightarrow> uint16_t" where
  "raise_mark w f = (if w < f then f else w)"

definition push_fill :: "USARTBuffer \<Rightarrow> uint16_t" where
  "push_fill b = (if fillLevel b = length_bytes b then fillLevel b else fillLevel b + 1)"

definition write_fill :: "USARTBuffer \<Rightarrow> uint16_t \<Rightarrow> uint16_t" where
  "write_fill t n =
     (if unat (fillLevel t) + unat n \<le> unat (length_bytes t) then fillLevel t + n
      else length_bytes t)"

definition write_mem :: "byte list \<Rightarrow> USARTBuffer \<Rightarrow> byte list \<Rightarrow> uint16_t \<Rightarrow> byte list" where
  "write_mem mb t bytes n =
     (let space = base t + length_bytes t - tail t in
      if n \<le> space then memcpy mb (unat (tail t)) bytes 0 (unat n)
      else memcpy (memcpy mb (unat (tail t)) bytes 0 (unat space))
             (unat (base t)) bytes (unat space) (unat (n - space)))"

definition read_count :: "USARTBuffer \<Rightarrow> uint16_t \<Rightarrow> uint16_t" where
  "read_count r n = (if n \<le> fillLevel r then n else fillLevel r)"

definition read_buf :: "byte list \<Rightarrow> USARTBuffer \<Rightarrow> byte list \<Rightarrow> uint16_t \<Rightarrow> byte list" where
  "read_buf mb r buf k =
     (let after = base r + length_bytes r - head r in
      if k \<le> after then memcpy buf 0 mb (unat (head r)) (unat k)
      else memcpy (memcpy buf 0 mb (unat (head r)) (unat after))
             (unat after) mb (unat (base r)) (unat (k - after)))"

section \<open>Invariants\<close>

text \<open>
  \<open>guards_free\<close>: both mutexes of the channel are available. \<open>marks_cover\<close>: each
  high-water mark is at least the fill level.
\<close>

definition guards_free :: "USART \<Rightarrow> bool" where
  "guards_free u \<longleftrightarrow> mutex (txBuffer u) = Available \<and> mutex (rxBuffer u) = Available"

definition marks_cover :: "USART \<Rightarrow> bool" where
  "marks_cover u \<longleftrightarrow> fillLevel (txBuffer u) \<le> highWater (txBuffer u)
                    \<and> fillLevel (rxBuffer u) \<le> highWater (rxBuffer u)"

text \<open>
  \<open>in_region b p\<close>: the offset \<open>p\<close> lies in \<open>[base, base + length)\<close>.
  \<open>region_fits b\<close>: the region ends within the 16-bit offset space.
\<close>

definition in_region :: "USARTBuffer \<Rightarrow> uint16_t \<Rightarrow> bool" where
  "in_region b p \<longleftrightarrow> unat (base b) \<le> unat p \<and> unat p < unat (base b) + unat (length_bytes b)"

definition region_fits :: "USARTBuffer \<Rightarrow> bool" where
  "region_fits b \<longleftrightarrow> unat (base b) + unat (length_bytes b) \<le> 65536"

definition buffer_inv :: "USARTBuffer \<Rightarrow> bool" where
  "buffer_inv b \<longleftrightarrow>
     fillLevel b \<le> length_bytes b \<and>
     (length_bytes b \<noteq> 0 \<longrightarrow> in_region b (head b) \<and> in_region b (tail b))"

section \<open>Accounting of the fill level\<close>

text \<open>
  \<open>fill_after\<close> is the fill level a buffer of length \<open>L\<close> should have after one
  more outcome: bytes accepted are added and the sum is capped at \<open>L\<close>, bytes removed
  are subtracted. \<open>fill_model\<close> applies it along a sequence of outcomes, from 0.
\<close>

fun fill_after :: "nat \<Rightarrow> side \<Rightarrow> nat \<Rightarrow> outcome \<Rightarrow> nat" where
  "fill_after L sd f (Accepted sd' n) = (if sd' = sd then min L (f + n) else f)"
| "fill_after L sd f (Removed sd' n) = (if sd' = sd then f - n else f)"

definition fill_model :: "nat \<Rightarrow> side \<Rightarrow> outcome list \<Rightarrow> nat" where
  "fill_model L sd outs = foldl (fill_after L sd) 0 outs"

text \<open>
  The other reading: the difference of all bytes accepted and all bytes removed, clamped
  to \<open>[0, L]\<close> once, at the end.
\<close>

fun accepted :: "side \<Rightarrow> outcome \<Rightarrow> int" where
  "accepted sd (Accepted sd' n) = (if sd' = sd then int n else 0)"
| "accepted sd (Removed sd' n) = 0"

fun removed :: "side \<Rightarrow> outcome \<Rightarrow> int" where
  "removed sd (Accepted sd' n) = 0"
| "removed sd (Removed sd' n) = (if sd' = sd then int n else 0)"

definition clamped_difference :: "nat \<Rightarrow> side \<Rightarrow> outcome list \<Rightarrow> int" where
  "clamped_difference L sd outs =
     max 0 (min (int L) (sum_list (map (accepted sd) outs) - sum_list (map (removed sd) outs)))"

text \<open>
  \<open>channel_inv\<close>: both mutexes available, and for either buffer the region fits and
  the buffer invariant holds.
\<close>

definition channel_inv :: "USART \<Rightarrow> bool" where
  "channel_inv u \<longleftrightarrow>
     guards_free u \<and> (\<forall>sd. region_fits (buffer_of sd u) \<and> buffer_inv (buffer_of sd u))"

text \<open>
  \<open>fill_is_clamped_difference ops s sd\<close>: after running \<open>ops\<close> from \<open>s\<close>, the
  fill level of buffer \<open>sd\<close> is the clamped difference of the bytes accepted and removed.
\<close>

definition fill_is_clamped_difference :: "operation list \<Rightarrow> byte list \<times> USART \<Rightarrow> side \<Rightarrow> bool" where
  "fill_is_clamped_difference ops s sd \<longleftrightarrow>
     (case run ops s of
        None \<Rightarrow> False
      | Some tr \<Rightarrow>
          int (unat (fillLevel (buffer_of sd (snd (final s tr)))))
            = clamped_difference (unat (length_bytes (buffer_of sd (snd s)))) sd (map snd tr))"


section \<open>The queue held by a buffer\<close>

text \<open>
  \<open>slot b p k\<close> is the index in the master buffer of the \<open>k\<close>-th byte after offset
  \<open>p\<close>, counted with wrap-around inside the region of \<open>b\<close>. \<open>queued\<close> lists the
  bytes a buffer holds, oldest first: \<open>fillLevel\<close> bytes from head on.
  \<open>usable\<close> collects what holds of every buffer the driver has set up: mutex
  available, a non-empty region inside the master buffer, the bounds on fillLevel, head
  and tail. \<open>well_formed\<close> adds what holds as long as the buffer has never been
  overfilled: tail is exactly \<open>fillLevel\<close> bytes after head.
\<close>

definition slot :: "USARTBuffer \<Rightarrow> uint16_t \<Rightarrow> nat \<Rightarrow> nat" where
  "slot b p k = unat (base b) + (unat p - unat (base b) + k) mod unat (length_bytes b)"

definition queued :: "byte list \<Rightarrow> USARTBuffer \<Rightarrow> byte list" where
  "queued mb b = map (\<lambda>k. mb ! slot b (head b) k) [0..<unat (fillLevel b)]"

definition usable :: "byte list \<Rightarrow> USARTBuffer \<Rightarrow> bool" where
  "usable mb b \<longleftrightarrow>
     mutex b = Available \<and> region_fits b \<and>
     unat (base b) + unat (length_bytes b) \<le> length mb \<and>
     fillLevel b \<le> length_bytes b \<and> in_region b (head b) \<and> in_region b (tail b)"

definition well_formed :: "byte list \<Rightarrow> USARTBuffer \<Rightarrow> bool" where
  "well_formed mb b \<longleftrightarrow>
     usable mb b \<and> unat (tail b) = slot b (head b) (unat (fillLevel b))"

text \<open>
  What two buffers at different places have in common when they are in the same logical
  state. \<open>ring\<close> lists all bytes of the region in the order a reader meets them, from
  head on and around the end; \<open>tail_offset\<close> is the distance from head to tail around
  the ring. \<open>same_queue\<close>: equal length, fill level, distance from head to tail and
  ring. \<open>copy_wraps t n\<close>: a write of \<open>n\<close> bytes does not fit between tail and the
  physical end of the region, so \<open>writeBytes\<close> splits the copy.
\<close>

definition ring :: "byte list \<Rightarrow> USARTBuffer \<Rightarrow> byte list" where
  "ring mb b = map (\<lambda>k. mb ! slot b (head b) k) [0..<unat (length_bytes b)]"

definition tail_offset :: "USARTBuffer \<Rightarrow> nat" where
  "tail_offset b =
     (unat (tail b) + unat (length_bytes b) - unat (head b)) mod unat (length_bytes b)"

definition same_queue :: "byte list \<Rightarrow> USARTBuffer \<Rightarrow> byte list \<Rightarrow> USARTBuffer \<Rightarrow> bool" where
  "same_queue mb1 b1 mb2 b2 \<longleftrightarrow>
     length_bytes b1 = length_bytes b2 \<and> fillLevel b1 = fillLevel b2 \<and>
     tail_offset b1 = tail_offset b2 \<and> ring mb1 b1 = ring mb2 b2"

definition copy_wraps :: "USARTBuffer \<Rightarrow> uint16_t \<Rightarrow> bool" where
  "copy_wraps t n \<longleftrightarrow> unat (base t) + unat (length_bytes t) < unat (tail t) + unat n"

text \<open>
  \<open>overlay L toff N bytes old i\<close> is the \<open>i\<close>-th byte of the ring after \<open>N\<close>
  bytes have been written from distance \<open>toff\<close> on, over the ring \<open>old\<close>.
\<close>

definition overlay :: "nat \<Rightarrow> nat \<Rightarrow> nat \<Rightarrow> byte list \<Rightarrow> byte list \<Rightarrow> nat \<Rightarrow> byte" where
  "overlay L toff N bytes old i =
     (let k = (i + L - toff) mod L in if k < N then bytes ! k else old ! i)"

text \<open>
  \<open>drained\<close>: \<open>channel 8\<close> after \<open>writeBytes\<close> of 6 bytes into the empty transmit
  buffer of length 8 and 6 pops. The buffer is empty again, with head and tail 6 bytes
  into the region, 2 bytes before its physical end.
\<close>

definition drained :: "byte list \<times> USART" where
  "drained =
     (case writeBytes emptyMaster (channel 8) [0x31, 0x32, 0x33, 0x34, 0x35, 0x36] 6 of
        (mb, u, n) \<Rightarrow> (mb, u\<lparr>txBuffer := fst (bufferPopN mb (txBuffer u) 6)\<rparr>))"

text \<open>
  \<open>drained_at_base\<close>: \<open>channel 8\<close> after \<open>writeBytes\<close> of 8 bytes and 8 pops.
  The buffer is empty, head and tail are back at the base, and the region holds the same
  bytes, counted from head, as in \<open>drained\<close>.
\<close>

definition drained_at_base :: "byte list \<times> USART" where
  "drained_at_base =
     (case writeBytes emptyMaster (channel 8) [0, 0, 0x31, 0x32, 0x33, 0x34, 0x35, 0x36] 8 of
        (mb, u, n) \<Rightarrow> (mb, u\<lparr>txBuffer := fst (bufferPopN mb (txBuffer u) 8)\<rparr>))"

section \<open>What each operation does when the mutex is available\<close>

lemma bufferPush_Available:
  assumes "mutex buf = Available"
  shows "bufferPush mb buf d = Some (mb[unat (tail buf) := d],
     buf\<lparr>tail := ptr_inc buf (tail buf), fillLevel := push_fill buf,
         highWater := raise_mark (highWater buf) (push_fill buf)\<rparr>)"
proof -
  obtain b l h t f w where bf: "buf = \<lparr>base = b, length_bytes = l, head = h, tail = t,
      fillLevel = f, highWater = w, mutex = Available\<rparr>"
    using assms by (cases buf) simp
  show ?thesis
    unfolding bufferPush_def ptr_inc_def push_fill_def raise_mark_def
    by (simp add: bf xSemaphoreTake_def xSemaphoreGive_def Let_def)
qed

lemma bufferPop_Available:
  assumes "mutex buf = Available"
  shows "bufferPop mb buf =
     (if fillLevel buf \<noteq> 0 then
        (buf\<lparr>head := ptr_inc buf (head buf), fillLevel := fillLevel buf - 1\<rparr>,
         True, Some (mb ! unat (head buf)))
      else (buf, False, None))"
proof -
  obtain b l h t f w where bf: "buf = \<lparr>base = b, length_bytes = l, head = h, tail = t,
      fillLevel = f, highWater = w, mutex = Available\<rparr>"
    using assms by (cases buf) simp
  show ?thesis
    unfolding bufferPop_def ptr_inc_def
    by (simp add: bf xSemaphoreTake_def xSemaphoreGive_def Let_def)
qed

lemma writeBytes_too_long:
  "\<not> n \<le> length_bytes (txBuffer u) \<Longrightarrow> writeBytes mb u bytes n = (mb, u, 0)"
  by (simp add: writeBytes_def not_le)

lemma writeBytes_Available:
  assumes "mutex (txBuffer u) = Available" and "n \<le> length_bytes (txBuffer u)"
  shows "writeBytes mb u bytes n =
     (write_mem mb (txBuffer u) bytes n,
      u\<lparr>txBuffer := (txBuffer u)
           \<lparr>tail := ptr_add (txBuffer u) (tail (txBuffer u)) n,
            fillLevel := write_fill (txBuffer u) n,
            highWater := raise_mark (highWater (txBuffer u)) (write_fill (txBuffer u) n)\<rparr>,
        txeInterrupt := True\<rparr>, n)"
proof -
  obtain b l h t f w where tx: "txBuffer u = \<lparr>base = b, length_bytes = l, head = h, tail = t,
      fillLevel = f, highWater = w, mutex = Available\<rparr>"
    using assms(1) by (cases "txBuffer u") simp
  have nl: "\<not> l < n" using assms(2) tx by simp
  show ?thesis
    unfolding writeBytes_def write_mem_def ptr_add_def write_fill_def raise_mark_def
    by (simp add: tx nl xSemaphoreTake_def xSemaphoreGive_def Let_def)
qed

lemma readBytes_Available:
  assumes "mutex (rxBuffer u) = Available"
  shows "readBytes mb u buf n =
     (u\<lparr>rxBuffer := (rxBuffer u)
           \<lparr>head := ptr_add (rxBuffer u) (head (rxBuffer u)) (read_count (rxBuffer u) n),
            fillLevel := fillLevel (rxBuffer u) - read_count (rxBuffer u) n\<rparr>\<rparr>,
      read_buf mb (rxBuffer u) buf (read_count (rxBuffer u) n),
      read_count (rxBuffer u) n)"
proof -
  obtain b l h t f w where rx: "rxBuffer u = \<lparr>base = b, length_bytes = l, head = h, tail = t,
      fillLevel = f, highWater = w, mutex = Available\<rparr>"
    using assms(1) by (cases "rxBuffer u") simp
  show ?thesis
    unfolding readBytes_def ptr_add_def read_buf_def read_count_def
    by (simp add: rx xSemaphoreTake_def xSemaphoreGive_def Let_def)
qed

section \<open>Traces\<close>

lemma final_Nil: "final s [] = s"
  by (simp add: final_def)

lemma final_Cons: "final s ((s1, out) # tr) = final s1 tr"
  by (simp add: final_def)

lemma visited_Nil: "visited s [] = [snd s]"
  by (simp add: visited_def)

lemma visited_Cons: "visited s ((s1, out) # tr) = snd s # visited s1 tr"
  by (simp add: visited_def)

lemma visited_not_Nil: "visited s tr \<noteq> []"
  by (simp add: visited_def)

lemma Max_visited_Cons:
  "Max (set (map f (visited (mb, u) (((mb1, u1), out) # tr))))
     = max (f u) (Max (set (map f (visited (mb1, u1) tr))))"
  by (simp add: visited_Cons visited_not_Nil)

lemma Max_visited_ge: "f u \<le> Max (set (map f (visited (mb, u) tr)))"
  by (simp add: visited_def)

lemma sorted_visited_Cons:
  "sorted (map f (visited s ((s1, out) # tr)))
     \<longleftrightarrow> f (snd s) \<le> f (snd s1) \<and> sorted (map f (visited s1 tr))"
  by (cases tr) (auto simp add: visited_def)

lemma max_regroup:
  fixes h a b m :: "'a::linorder"
  shows "b \<le> m \<Longrightarrow> a \<le> h \<Longrightarrow> max (max h b) m = max h (max a m)"
  by (auto simp add: max_def)

section \<open>High-water marks\<close>

lemma raise_mark_max: "raise_mark w f = max w f"
  by (auto simp add: raise_mark_def max_def)

lemma word_pred_le: "(f::uint16_t) \<noteq> 0 \<Longrightarrow> f - 1 \<le> f"
  by unat_arith

lemma word_diff_le: "(k::uint16_t) \<le> f \<Longrightarrow> f - k \<le> f"
  by unat_arith

lemma read_count_le: "read_count r n \<le> fillLevel r"
  by (simp add: read_count_def)

lemma pop_mark:
  "(f::uint16_t) \<noteq> 0 \<Longrightarrow> f \<le> w \<Longrightarrow> max w (f - 1) = w"
  using order_trans [OF word_pred_le] by (simp add: max_absorb1)

text \<open>What one step does to the marks of either buffer.\<close>

lemma step_marks:
  assumes g: "guards_free u" and m: "marks_cover u"
  shows "\<exists>mb' u' out. step x (mb, u) = Some ((mb', u'), out) \<and> guards_free u' \<and>
           highWater (buffer_of sd u')
             = max (highWater (buffer_of sd u)) (fillLevel (buffer_of sd u'))"
proof (cases x)
  case (Push sd' d)
  then show ?thesis using g m
    by (cases sd; cases sd')
       (simp_all add: guards_free_def marks_cover_def bufferPush_Available raise_mark_max
          max_absorb1)
next
  case (Pop sd')
  show ?thesis
    using g m Pop
    by (cases sd; cases sd')
       (simp_all add: guards_free_def marks_cover_def bufferPop_Available max_absorb1 pop_mark)
next
  case (WriteBytes bytes n)
  show ?thesis
  proof (cases "n \<le> length_bytes (txBuffer u)")
    case True
    then show ?thesis using g m WriteBytes
      by (cases sd)
         (simp_all add: guards_free_def marks_cover_def writeBytes_Available raise_mark_max
            max_absorb1)
  next
    case False
    then show ?thesis using g m WriteBytes
      by (cases sd)
         (simp_all add: guards_free_def marks_cover_def max_absorb1 writeBytes_too_long)
  qed
next
  case (ReadBytes buf n)
  have "fillLevel (rxBuffer u) - read_count (rxBuffer u) n \<le> highWater (rxBuffer u)"
    using m word_diff_le [OF read_count_le, of "rxBuffer u" n]
    by (auto simp add: marks_cover_def)
  then show ?thesis using g m ReadBytes
    by (cases sd)
       (simp_all add: guards_free_def marks_cover_def readBytes_Available max_absorb1)
qed

lemma step_marks_Some:
  assumes "guards_free u" and "marks_cover u" and "step x (mb, u) = Some ((mb', u'), out)"
  shows "guards_free u'"
    and "highWater (buffer_of sd u')
           = max (highWater (buffer_of sd u)) (fillLevel (buffer_of sd u'))"
  using step_marks [OF assms(1,2), of x mb sd] assms(3) by auto

lemma step_marks_cover:
  assumes "guards_free u" and "marks_cover u" and "step x (mb, u) = Some ((mb', u'), out)"
  shows "marks_cover u'"
  using step_marks_Some(2) [OF assms, of Tx] step_marks_Some(2) [OF assms, of Rx]
  by (simp add: marks_cover_def)

lemma step_total:
  assumes "guards_free u" and "marks_cover u"
  shows "\<exists>mb' u' out. step x (mb, u) = Some ((mb', u'), out)"
  using step_marks [OF assms, of x mb Tx] by blast

lemma run_marks:
  assumes "guards_free u" and "marks_cover u"
  shows "\<exists>tr. run ops (mb, u) = Some tr \<and>
           highWater (buffer_of sd (snd (final (mb, u) tr)))
             = max (highWater (buffer_of sd u))
                   (Max (set (map (\<lambda>v. fillLevel (buffer_of sd v)) (visited (mb, u) tr)))) \<and>
           sorted (map (\<lambda>v. highWater (buffer_of sd v)) (visited (mb, u) tr))"
  using assms
proof (induction ops arbitrary: mb u)
  case Nil
  then show ?case
    by (cases sd) (simp_all add: final_Nil visited_Nil marks_cover_def max_absorb1)
next
  case (Cons x ops)
  obtain mb' u' out where st: "step x (mb, u) = Some ((mb', u'), out)"
    using step_total [OF Cons.prems] by blast
  have g': "guards_free u'" and m': "marks_cover u'"
    and hw: "highWater (buffer_of sd u')
               = max (highWater (buffer_of sd u)) (fillLevel (buffer_of sd u'))"
    using step_marks_Some [OF Cons.prems st] step_marks_cover [OF Cons.prems st] by auto
  obtain tr where tr: "run ops (mb', u') = Some tr"
    and fin: "highWater (buffer_of sd (snd (final (mb', u') tr)))
             = max (highWater (buffer_of sd u'))
                   (Max (set (map (\<lambda>v. fillLevel (buffer_of sd v)) (visited (mb', u') tr))))"
    and srt: "sorted (map (\<lambda>v. highWater (buffer_of sd v)) (visited (mb', u') tr))"
    using Cons.IH [OF g' m'] by blast
  define F where "F = (\<lambda>v. fillLevel (buffer_of sd v))"
  define M where "M = Max (set (map F (visited (mb', u') tr)))"
  define M0 where "M0 = Max (set (map F (visited (mb, u) (((mb', u'), out) # tr))))"
  have ge: "F u' \<le> M"
    unfolding M_def by (rule Max_visited_ge)
  have M0: "M0 = max (F u) M"
    unfolding M_def M0_def by (rule Max_visited_Cons)
  have cov: "F u \<le> highWater (buffer_of sd u)"
    using Cons.prems(2) by (cases sd) (simp_all add: marks_cover_def F_def)
  have fin': "highWater (buffer_of sd (snd (final (mb', u') tr)))
                = max (highWater (buffer_of sd u')) M"
    using fin by (simp only: M_def F_def)
  have hw': "highWater (buffer_of sd u') = max (highWater (buffer_of sd u)) (F u')"
    using hw by (simp only: F_def)
  have "highWater (buffer_of sd (snd (final (mb', u') tr)))
          = max (highWater (buffer_of sd u)) M0"
    unfolding fin' hw' M0 using ge cov by (rule max_regroup)
  then have "highWater (buffer_of sd (snd (final (mb, u) (((mb', u'), out) # tr))))
      = max (highWater (buffer_of sd u))
            (Max (set (map (\<lambda>v. fillLevel (buffer_of sd v))
                        (visited (mb, u) (((mb', u'), out) # tr)))))"
    by (simp only: final_Cons M0_def F_def)
  moreover have "run (x # ops) (mb, u) = Some (((mb', u'), out) # tr)"
    by (simp add: st tr)
  moreover have "sorted (map (\<lambda>v. highWater (buffer_of sd v))
                          (visited (mb, u) (((mb', u'), out) # tr)))"
    using srt hw by (simp add: sorted_visited_Cons)
  ultimately show ?case by blast
qed


section \<open>Pointer arithmetic on 16-bit offsets\<close>

lemma u16_bound: "unat (x::uint16_t) < 65536"
  using unsigned_less [of x, where ?'a = nat] by simp

lemma u16_add: "unat x + unat y < 65536 \<Longrightarrow> unat (x + y :: uint16_t) = unat x + unat y"
  using unat_add_lem [of x y] by simp

lemma u16_sub: "unat y \<le> unat x \<Longrightarrow> unat (x - y :: uint16_t) = unat x - unat y"
  by (simp add: unat_sub word_le_nat_alt)

lemma ptr_inc_unat:
  assumes "region_fits b" and "in_region b p"
  shows "unat (ptr_inc b p) =
           (if unat p + 1 = unat (base b) + unat (length_bytes b) then unat (base b)
            else unat p + 1)"
proof (cases "unat (base b) + unat (length_bytes b) = unat p + 1")
  case True
  then show ?thesis by (simp add: ptr_inc_def)
next
  case False
  have "unat p + unat (1::uint16_t) < 65536"
    using assms False unfolding region_fits_def in_region_def by simp
  then have "unat (p + 1) = unat p + 1"
    using u16_add [of p 1] by simp
  with False show ?thesis by (simp add: ptr_inc_def)
qed

lemma space_unat:
  assumes "region_fits b" and "in_region b p"
  shows "unat (base b + length_bytes b - p) = unat (base b) + unat (length_bytes b) - unat p"
  using assms unfolding region_fits_def in_region_def by unat_arith

lemma ptr_add_unat:
  assumes "region_fits b" and "in_region b p" and "n \<le> length_bytes b"
  shows "unat (ptr_add b p n) =
           (if unat p + unat n < unat (base b) + unat (length_bytes b) then unat p + unat n
            else unat p + unat n - unat (length_bytes b))"
proof -
  define B L P N where "B = unat (base b)" and "L = unat (length_bytes b)"
    and "P = unat p" and "N = unat n"
  define sp where "sp = base b + length_bytes b - p"
  have fits: "B + L \<le> 65536" and reg: "B \<le> P" "P < B + L" and nl: "N \<le> L"
    using assms by (simp_all add: region_fits_def in_region_def B_def L_def P_def N_def
        word_le_nat_alt)
  have sp: "unat sp = B + L - P"
    unfolding sp_def B_def L_def P_def by (rule space_unat [OF assms(1,2)])
  have le: "n \<le> sp \<longleftrightarrow> N \<le> B + L - P"
    by (simp add: word_le_nat_alt sp N_def)
  have eq: "n = sp \<longleftrightarrow> N = B + L - P"
    by (simp add: word_unat_eq_iff sp N_def)
  have goal: "unat (ptr_add b p n) = (if P + N < B + L then P + N else P + N - L)"
  proof -
    consider (exact) "N = B + L - P" | (short) "N < B + L - P" | (wrap) "B + L - P < N"
      by linarith
    then show ?thesis
    proof cases
      case exact
      then have "ptr_add b p n = base b"
        using le eq by (simp add: ptr_add_def Let_def sp_def)
      then have "unat (ptr_add b p n) = B" by (simp add: B_def)
      then show ?thesis using exact reg nl by auto
    next
      case short
      then have "ptr_add b p n = p + n"
        using le eq by (simp add: ptr_add_def Let_def sp_def)
      moreover have "unat (p + n) = P + N"
        unfolding P_def N_def
        by (rule u16_add) (use short fits in \<open>simp add: P_def N_def\<close>)
      ultimately show ?thesis using short by auto
    next
      case wrap
      then have pa: "ptr_add b p n = base b + (n - sp)"
        using le eq by (simp add: ptr_add_def Let_def sp_def)
      have d: "unat (n - sp) = N - (B + L - P)"
        unfolding N_def using wrap by (simp add: u16_sub sp N_def)
      have "unat (base b + (n - sp)) = B + (N - (B + L - P))"
        unfolding B_def
        by (subst u16_add) (use d wrap fits reg nl in \<open>simp_all add: B_def\<close>)
      then show ?thesis using wrap reg nl pa by auto
    qed
  qed
  then show ?thesis
    by (simp only: B_def L_def P_def N_def)
qed


section \<open>The buffer invariant under each operation\<close>

lemma ptr_inc_in_region:
  assumes "region_fits b" and "in_region b p"
  shows "in_region b (ptr_inc b p)"
  using assms ptr_inc_unat [OF assms]
  by (auto simp add: in_region_def)

lemma ptr_add_in_region:
  assumes "region_fits b" and "in_region b p" and "n \<le> length_bytes b"
  shows "in_region b (ptr_add b p n)"
proof -
  have "unat n \<le> unat (length_bytes b)"
    using assms(3) by (simp add: word_le_nat_alt)
  then show ?thesis
    using assms(2) ptr_add_unat [OF assms]
    by (auto simp add: in_region_def)
qed

lemma push_fill_unat:
  assumes "fillLevel b \<le> length_bytes b"
  shows "unat (push_fill b) = min (unat (length_bytes b)) (unat (fillLevel b) + 1)"
proof (cases "fillLevel b = length_bytes b")
  case True
  then show ?thesis by (simp add: push_fill_def)
next
  case False
  then have lt: "unat (fillLevel b) < unat (length_bytes b)"
    using assms by (simp add: word_le_nat_alt word_unat_eq_iff)
  then have "unat (fillLevel b) + unat (1::uint16_t) < 65536"
    using u16_bound [of "length_bytes b"] by simp
  then have "unat (fillLevel b + 1) = unat (fillLevel b) + 1"
    using u16_add [of "fillLevel b" 1] by simp
  with False lt show ?thesis by (simp add: push_fill_def)
qed

lemma write_fill_unat:
  assumes "fillLevel b \<le> length_bytes b"
  shows "unat (write_fill b n) = min (unat (length_bytes b)) (unat (fillLevel b) + unat n)"
proof (cases "unat (fillLevel b) + unat n \<le> unat (length_bytes b)")
  case True
  then have "unat (fillLevel b) + unat n < 65536"
    using u16_bound [of "length_bytes b"] by simp
  then have "unat (fillLevel b + n) = unat (fillLevel b) + unat n"
    by (rule u16_add)
  with True show ?thesis by (simp add: write_fill_def)
next
  case False
  then show ?thesis by (simp add: write_fill_def)
qed

lemma pop_fill_unat: "(f::uint16_t) \<noteq> 0 \<Longrightarrow> unat (f - 1) = unat f - 1"
  using u16_sub [of 1 f] by (simp add: word_unat_eq_iff)

lemma read_fill_unat:
  "unat (fillLevel r - read_count r n) = unat (fillLevel r) - unat (read_count r n)"
  using read_count_le [of r n] by (simp add: u16_sub word_le_nat_alt)

lemma unat_le_trans:
  "unat (k::uint16_t) \<le> unat f \<Longrightarrow> f \<le> l \<Longrightarrow> k \<le> l"
  by (simp add: word_le_nat_alt)

text \<open>Each operation keeps the invariant of the buffer it works on.\<close>

lemma push_keeps_inv:
  assumes "region_fits b" and "buffer_inv b"
  shows "buffer_inv (b\<lparr>tail := ptr_inc b (tail b), fillLevel := push_fill b, highWater := w\<rparr>)"
proof -
  have "unat (push_fill b) \<le> unat (length_bytes b)"
    using assms(2) by (simp add: buffer_inv_def push_fill_unat)
  moreover have "length_bytes b \<noteq> 0 \<Longrightarrow> in_region b (ptr_inc b (tail b))"
    using assms by (simp add: buffer_inv_def ptr_inc_in_region)
  ultimately show ?thesis
    using assms(2) by (simp add: buffer_inv_def in_region_def word_le_nat_alt)
qed

lemma pop_keeps_inv:
  assumes "region_fits b" and "buffer_inv b" and "fillLevel b \<noteq> 0"
  shows "buffer_inv (b\<lparr>head := ptr_inc b (head b), fillLevel := fillLevel b - 1\<rparr>)"
proof -
  have "unat (fillLevel b - 1) \<le> unat (length_bytes b)"
    using assms(2,3) by (auto simp add: buffer_inv_def pop_fill_unat word_le_nat_alt)
  moreover have "length_bytes b \<noteq> 0 \<Longrightarrow> in_region b (ptr_inc b (head b))"
    using assms by (simp add: buffer_inv_def ptr_inc_in_region)
  ultimately show ?thesis
    using assms(2) by (simp add: buffer_inv_def in_region_def word_le_nat_alt)
qed

lemma write_keeps_inv:
  assumes "region_fits b" and "buffer_inv b" and "n \<le> length_bytes b"
  shows "buffer_inv (b\<lparr>tail := ptr_add b (tail b) n, fillLevel := write_fill b n,
                        highWater := w\<rparr>)"
proof -
  have "unat (write_fill b n) \<le> unat (length_bytes b)"
    using assms(2) by (simp add: buffer_inv_def write_fill_unat)
  moreover have "length_bytes b \<noteq> 0 \<Longrightarrow> in_region b (ptr_add b (tail b) n)"
    using assms by (simp add: buffer_inv_def ptr_add_in_region)
  ultimately show ?thesis
    using assms(2) by (simp add: buffer_inv_def in_region_def word_le_nat_alt)
qed

lemma read_keeps_inv:
  assumes "region_fits b" and "buffer_inv b"
  shows "buffer_inv (b\<lparr>head := ptr_add b (head b) (read_count b n),
                        fillLevel := fillLevel b - read_count b n\<rparr>)"
proof -
  have fl: "fillLevel b \<le> length_bytes b"
    using assms(2) by (simp add: buffer_inv_def)
  have "unat (fillLevel b - read_count b n) \<le> unat (length_bytes b)"
    using fl by (auto simp add: read_fill_unat word_le_nat_alt)
  moreover have "read_count b n \<le> length_bytes b"
    using read_count_le [of b n] fl by (rule order_trans)
  then have "length_bytes b \<noteq> 0 \<Longrightarrow> in_region b (ptr_add b (head b) (read_count b n))"
    using assms by (simp add: buffer_inv_def ptr_add_in_region)
  ultimately show ?thesis
    using assms(2) by (simp add: buffer_inv_def in_region_def word_le_nat_alt)
qed


section \<open>The channel invariant under one step\<close>

lemma all_side: "(\<forall>sd. P sd) \<longleftrightarrow> P Tx \<and> P Rx"
  by (metis side.exhaust)

lemma fill_le_inv: "buffer_inv b \<Longrightarrow> fillLevel b \<le> length_bytes b"
  by (simp add: buffer_inv_def)

lemma step_inv:
  assumes "channel_inv u"
  shows "\<exists>mb' u' out. step x (mb, u) = Some ((mb', u'), out) \<and> channel_inv u' \<and>
           (\<forall>sd. base (buffer_of sd u') = base (buffer_of sd u) \<and>
                  length_bytes (buffer_of sd u') = length_bytes (buffer_of sd u) \<and>
                  unat (fillLevel (buffer_of sd u'))
                    = fill_after (unat (length_bytes (buffer_of sd u))) sd
                        (unat (fillLevel (buffer_of sd u))) out)"
proof -
  have g: "mutex (txBuffer u) = Available" "mutex (rxBuffer u) = Available"
    and rt: "region_fits (txBuffer u)" and rr: "region_fits (rxBuffer u)"
    and it: "buffer_inv (txBuffer u)" and ir: "buffer_inv (rxBuffer u)"
    using assms by (simp_all add: channel_inv_def guards_free_def all_side)
  note fl = fill_le_inv [OF it] fill_le_inv [OF ir]
  have rf: "region_fits (b\<lparr>head := h, fillLevel := f\<rparr>) = region_fits b"
    "region_fits (b\<lparr>tail := t, fillLevel := f, highWater := w\<rparr>) = region_fits b"
    for b h t f w
    by (simp_all add: region_fits_def)
  show ?thesis
  proof (cases x)
    case (Push sd' d)
    then show ?thesis
      using g rt rr it ir fl
      by (cases sd')
         (simp_all add: channel_inv_def guards_free_def all_side bufferPush_Available rf
            push_keeps_inv push_fill_unat)
  next
    case (Pop sd')
    then show ?thesis
      using g rt rr it ir fl
      by (cases sd')
         (simp_all add: channel_inv_def guards_free_def all_side bufferPop_Available rf
            pop_keeps_inv pop_fill_unat)
  next
    case (WriteBytes bytes n)
    show ?thesis
    proof (cases "n \<le> length_bytes (txBuffer u)")
      case True
      then show ?thesis
        using g rt rr it ir fl WriteBytes
        by (simp add: channel_inv_def guards_free_def all_side writeBytes_Available rf
              write_keeps_inv write_fill_unat)
    next
      case False
      then show ?thesis
        using g rt rr it ir fl WriteBytes
        by (simp add: channel_inv_def guards_free_def all_side writeBytes_too_long
              word_le_nat_alt)
    qed
  next
    case (ReadBytes buf n)
    then show ?thesis
      using g rt rr it ir fl
      by (simp add: channel_inv_def guards_free_def all_side readBytes_Available rf
            read_keeps_inv read_fill_unat)
  qed
qed


section \<open>Rejection of an oversized write\<close>

text \<open>
  C4. A \<open>writeBytes\<close> request of more bytes than the transmit buffer's length returns 0
  and changes nothing: the master buffer and the whole channel record, so in particular
  head, tail and fillLevel of the transmit buffer, are what they were before the call.
\<close>

theorem writeBytes_oversized_rejected:
  "numBytes > length_bytes (txBuffer usart) \<Longrightarrow>
     writeBytes masterBuffer usart bytes numBytes = (masterBuffer, usart, 0)"
  by (simp add: writeBytes_def)

theorem writeBytes_oversized_rejected_witness:
  "(9::uint16_t) > length_bytes (txBuffer (channel 8)) \<and>
   writeBytes emptyMaster (channel 8) [1, 2, 3, 4, 5, 6, 7, 8, 9] 9
     = (emptyMaster, channel 8, 0)"
proof -
  have h: "(9::uint16_t) > length_bytes (txBuffer (channel 8))"
    by (simp add: channel_def initUsart_def bufferInit_def unsetUSART_def unsetBuffer_def)
  show ?thesis
    using h writeBytes_oversized_rejected [OF h, of emptyMaster "[1, 2, 3, 4, 5, 6, 7, 8, 9]"]
    by simp
qed

section \<open>The concrete channels, spelled out\<close>

lemma channel_8_value:
  "channel 8 =
     \<lparr>enabled = True,
        txBuffer = \<lparr>base = 0, length_bytes = 8, head = 0, tail = 0, fillLevel = 0,
                     highWater = 0, mutex = Available\<rparr>,
        rxBuffer = \<lparr>base = 8, length_bytes = 8, head = 8, tail = 8, fillLevel = 0,
                     highWater = 0, mutex = Available\<rparr>,
        txeInterrupt = False\<rparr>"
  by code_simp

lemma received_AB_CD_value:
  "received [0x41, 0x42, 0x0A, 0x43, 0x44] =
     ([0, 0, 0, 0, 0, 0, 0, 0, 0x41, 0x42, 0x0A, 0x43, 0x44, 0, 0, 0,
       0, 0, 0, 0, 0, 0, 0, 0, 0, 0, 0, 0, 0, 0, 0, 0],
      \<lparr>enabled = True,
         txBuffer = \<lparr>base = 0, length_bytes = 8, head = 0, tail = 0, fillLevel = 0,
                      highWater = 0, mutex = Available\<rparr>,
         rxBuffer = \<lparr>base = 8, length_bytes = 8, head = 8, tail = 13, fillLevel = 5,
                      highWater = 5, mutex = Available\<rparr>,
         txeInterrupt = False\<rparr>)"
  by code_simp

section \<open>Line reads\<close>

text \<open>
  C1, evaluated on the code. The receive buffer of \<open>channel 8\<close> holds the five bytes
  \<open>A B \n C D\<close> and its mutex is available. \<open>readLine\<close> finds the line ending at
  \<open>i = 2\<close>, copies \<open>i - 1 = 1\<close> byte, stores the NUL at index 1 and returns 1: the
  caller gets \<open>A\<close>, not \<open>AB\<close>. The channel is returned as it was: head and fillLevel
  are not advanced, all five bytes are still queued.
\<close>

theorem readLine_AB_copies_one_byte_consumes_nothing:
  "readLine (fst (received [0x41, 0x42, 0x0A, 0x43, 0x44]))
            (snd (received [0x41, 0x42, 0x0A, 0x43, 0x44])) (replicate 8 0xEE)
     = (snd (received [0x41, 0x42, 0x0A, 0x43, 0x44]),
        [0x41, 0, 0xEE, 0xEE, 0xEE, 0xEE, 0xEE, 0xEE], 1)
   \<and> fillLevel (rxBuffer (snd (received [0x41, 0x42, 0x0A, 0x43, 0x44]))) = 5"
  by code_simp

text \<open>
  C2, evaluated on the code. The receive buffer of \<open>channel 8\<close> holds the six bytes
  \<open>A B C D E \n\<close>. \<open>readLineTruncate\<close> with \<open>maxLen = 1\<close> returns 1 and hands
  \<open>A\<close> to the caller, but the channel is returned as it was: fillLevel is still 6 and
  nothing of the line has been removed from the buffer.
\<close>

theorem readLineTruncate_consumes_nothing:
  "readLineTruncate (fst (received [0x41, 0x42, 0x43, 0x44, 0x45, 0x0A]))
                    (snd (received [0x41, 0x42, 0x43, 0x44, 0x45, 0x0A])) (replicate 8 0xEE) 1
     = (snd (received [0x41, 0x42, 0x43, 0x44, 0x45, 0x0A]),
        [0x41, 0, 0xEE, 0xEE, 0xEE, 0xEE, 0xEE, 0xEE], 1)
   \<and> fillLevel (rxBuffer (snd (received [0x41, 0x42, 0x43, 0x44, 0x45, 0x0A]))) = 6"
  by code_simp

section \<open>Push into a full buffer\<close>

text \<open>
  C3, evaluated on the code. Four bytes \<open>0x30 .. 0x33\<close> are pushed into the empty
  transmit buffer of length 3 of \<open>channel 3\<close>. The fourth push leaves fillLevel at 3 and
  overwrites the slot under head without moving head, so three pops return input bytes
  3, 1, 2: the newest byte first, not bytes 1, 2, 3.
\<close>

theorem push_on_full_then_pops_out_of_order:
  "(case bufferPushAll emptyMaster (txBuffer (channel 3)) [0x30, 0x31, 0x32, 0x33] of
      None \<Rightarrow> False
    | Some (mb, b) \<Rightarrow>
        fillLevel b = 3 \<and> snd (bufferPopN mb b 3) = [Some 0x33, Some 0x31, Some 0x32])"
  by code_simp

section \<open>Peek\<close>

text \<open>
  C5, evaluated on the code. The receive buffer of \<open>channel 8\<close> holds the single byte
  \<open>A\<close> at head, its mutex is available and the requested depth 0 is inside the fill
  range (\<open>0 < fillLevel = 1\<close>). \<open>bufferPeek\<close> returns the error value \<open>0xFF\<close>,
  because it rejects exactly when \<open>fillLevel > depth\<close>.
\<close>

theorem bufferPeek_rejects_depth_inside_fill:
  "bufferPeek (fst (received [0x41])) (rxBuffer (snd (received [0x41]))) 0
     = (rxBuffer (snd (received [0x41])), 0xFF)
   \<and> fillLevel (rxBuffer (snd (received [0x41]))) = 1
   \<and> fst (received [0x41]) ! unat (head (rxBuffer (snd (received [0x41])))) = 0x41"
  by code_simp

section \<open>Line writes\<close>

text \<open>
  C6, evaluated on the code. For the one-character line \<open>"\n"\<close> (\<open>k = 1\<close>, within the
  transmit buffer's length 8) \<open>writeLine\<close> calls \<open>writeBytes\<close> with 0 bytes, takes
  the returned 0 for a failure and returns 0 without pushing the line terminator: the
  master buffer and the transmit buffer are unchanged.
\<close>

theorem writeLine_single_character_pushes_nothing:
  "writeLine emptyMaster (channel 8) [0x0A, 0]
     = Some (emptyMaster, (channel 8)\<lparr>txeInterrupt := True\<rparr>, 0)"
  by code_simp

section \<open>Bytes available\<close>

text \<open>
  C10, evaluated on the code. The receive buffer of \<open>channel 8\<close> holds two bytes and
  both mutexes are available. \<open>rxBytesAvailable\<close> returns 2, but it gives the transmit
  buffer's mutex and leaves the receive buffer's mutex taken; a second call cannot take
  it and returns 0.
\<close>

theorem rxBytesAvailable_leaves_rx_mutex_taken:
  "rxBytesAvailable (snd (received [0x41, 0x42]))
     = ((snd (received [0x41, 0x42]))
          \<lparr>rxBuffer := (rxBuffer (snd (received [0x41, 0x42])))\<lparr>mutex := Taken\<rparr>\<rparr>, 2)
   \<and> mutex (rxBuffer (snd (received [0x41, 0x42]))) = Available
   \<and> snd (rxBytesAvailable (fst (rxBytesAvailable (snd (received [0x41, 0x42]))))) = 0"
  by code_simp

section \<open>High-water mark over a sequence of calls\<close>

lemma initUsart_Some:
  assumes "initUsart M u0 a txSize rxSize = Some (u, a')"
  shows "txBuffer u = \<lparr>base = a, length_bytes = txSize, head = a, tail = a, fillLevel = 0,
                        highWater = 0, mutex = Available\<rparr>"
    and "rxBuffer u = \<lparr>base = a + txSize, length_bytes = rxSize, head = a + txSize,
                        tail = a + txSize, fillLevel = 0, highWater = 0, mutex = Available\<rparr>"
    and "uint a + uint txSize + uint rxSize \<le> M"
  using assms
  by (auto simp add: initUsart_def bufferInit_def Let_def split: if_splits)

text \<open>
  C9. From the state that \<open>initUsart\<close> sets up, whatever the sequence of push, pop,
  \<open>writeBytes\<close> and \<open>readBytes\<close> calls: the sequence runs to its end, and for either
  buffer the high-water mark at the end is the largest fill level among the states the
  sequence went through (the initial one included), and the marks of those states, in
  order, never decrease.
\<close>

theorem highWater_is_maximum_fillLevel:
  assumes "initUsart M u0 a txSize rxSize = Some (u, a')"
  shows "\<exists>tr. run ops (mb, u) = Some tr \<and>
           (\<forall>sd. highWater (buffer_of sd (snd (final (mb, u) tr)))
                    = Max (set (map (\<lambda>v. fillLevel (buffer_of sd v)) (visited (mb, u) tr))) \<and>
                  sorted (map (\<lambda>v. highWater (buffer_of sd v)) (visited (mb, u) tr)))"
proof -
  have g: "guards_free u" and m: "marks_cover u"
    using initUsart_Some(1,2) [OF assms] by (simp_all add: guards_free_def marks_cover_def)
  have z: "highWater (buffer_of sd u) = 0" for sd
    using initUsart_Some(1,2) [OF assms] by (cases sd) simp_all
  obtain tr where tr: "run ops (mb, u) = Some tr"
    using run_marks [OF g m, of ops mb Tx] by blast
  have "highWater (buffer_of sd (snd (final (mb, u) tr)))
          = Max (set (map (\<lambda>v. fillLevel (buffer_of sd v)) (visited (mb, u) tr))) \<and>
        sorted (map (\<lambda>v. highWater (buffer_of sd v)) (visited (mb, u) tr))" for sd
    using run_marks [OF g m, of ops mb sd] tr by (auto simp add: z max_absorb2)
  with tr show ?thesis by blast
qed

theorem highWater_is_maximum_fillLevel_witness:
  "initUsart 32 unsetUSART 0 8 8 = Some (channel 8, 16) \<and>
   (\<exists>tr. run [WriteBytes [0x41, 0x42, 0x43] 3, Push Tx 0x0A, Pop Tx, Push Rx 0x44,
              ReadBytes [0, 0] 2] (emptyMaster, channel 8) = Some tr \<and>
      (\<forall>sd. highWater (buffer_of sd (snd (final (emptyMaster, channel 8) tr)))
               = Max (set (map (\<lambda>v. fillLevel (buffer_of sd v))
                            (visited (emptyMaster, channel 8) tr))) \<and>
             sorted (map (\<lambda>v. highWater (buffer_of sd v))
                      (visited (emptyMaster, channel 8) tr))))"
proof -
  have h: "initUsart 32 unsetUSART 0 8 8 = Some (channel 8, 16)"
    by code_simp
  show ?thesis
    by (intro conjI h highWater_is_maximum_fillLevel [OF h])
qed

text \<open>
  From any state at all, reachable or not, no single operation lowers a high-water mark.
\<close>

lemma raise_mark_ge: "w \<le> raise_mark w f"
  by (auto simp add: raise_mark_def)

lemma bufferPush_mark_mono:
  assumes "bufferPush mb b d = Some (mb', b')"
  shows "highWater b \<le> highWater b'"
proof (cases "mutex b")
  case Available
  then show ?thesis using assms by (auto simp add: bufferPush_Available raise_mark_ge)
next
  case Taken
  then show ?thesis using assms by (simp add: bufferPush_def xSemaphoreTake_def)
qed

lemma bufferPop_mark_same: "highWater (fst (bufferPop mb b)) = highWater b"
proof (cases "mutex b")
  case Available
  then show ?thesis by (simp add: bufferPop_Available)
next
  case Taken
  then show ?thesis by (simp add: bufferPop_def xSemaphoreTake_def)
qed

lemma writeBytes_marks:
  "highWater (txBuffer u) \<le> highWater (txBuffer (fst (snd (writeBytes mb u bytes n))))"
  "rxBuffer (fst (snd (writeBytes mb u bytes n))) = rxBuffer u"
proof -
  have "highWater (txBuffer u) \<le> highWater (txBuffer (fst (snd (writeBytes mb u bytes n)))) \<and>
        rxBuffer (fst (snd (writeBytes mb u bytes n))) = rxBuffer u"
  proof (cases "n \<le> length_bytes (txBuffer u)")
    case False
    then show ?thesis by (simp add: writeBytes_too_long)
  next
    case True
    show ?thesis
    proof (cases "mutex (txBuffer u)")
      case Available
      then show ?thesis using True by (simp add: writeBytes_Available raise_mark_ge)
    next
      case Taken
      then show ?thesis by (simp add: writeBytes_def xSemaphoreTake_def)
    qed
  qed
  then show "highWater (txBuffer u)
               \<le> highWater (txBuffer (fst (snd (writeBytes mb u bytes n))))"
    and "rxBuffer (fst (snd (writeBytes mb u bytes n))) = rxBuffer u"
    by simp_all
qed

lemma readBytes_marks:
  "highWater (rxBuffer (fst (readBytes mb u buf n))) = highWater (rxBuffer u)"
  "txBuffer (fst (readBytes mb u buf n)) = txBuffer u"
proof -
  have "highWater (rxBuffer (fst (readBytes mb u buf n))) = highWater (rxBuffer u) \<and>
        txBuffer (fst (readBytes mb u buf n)) = txBuffer u"
  proof (cases "mutex (rxBuffer u)")
    case Available
    then show ?thesis by (simp add: readBytes_Available)
  next
    case Taken
    then show ?thesis by (simp add: readBytes_def xSemaphoreTake_def)
  qed
  then show "highWater (rxBuffer (fst (readBytes mb u buf n))) = highWater (rxBuffer u)"
    and "txBuffer (fst (readBytes mb u buf n)) = txBuffer u"
    by simp_all
qed

lemma step_highWater_mono:
  assumes "step x (mb, u) = Some ((mb', u'), out)"
  shows "highWater (buffer_of sd u) \<le> highWater (buffer_of sd u')"
proof (cases x)
  case (Push sd' d)
  then show ?thesis
    using assms bufferPush_mark_mono
    by (cases sd; cases sd') (auto split: option.splits)
next
  case (Pop sd')
  then show ?thesis
    using assms bufferPop_mark_same [where mb = mb and b = "buffer_of sd' u"]
    by (cases sd; cases sd') (auto split: prod.splits)
next
  case (WriteBytes bytes n)
  then show ?thesis
    using assms writeBytes_marks [where u = u and mb = mb and bytes = bytes and n = n]
    by (cases sd) (auto split: prod.splits)
next
  case (ReadBytes buf n)
  then show ?thesis
    using assms readBytes_marks [where u = u and mb = mb and buf = buf and n = n]
    by (cases sd) (auto split: prod.splits)
qed

section \<open>Fill level and pointers over a sequence of calls\<close>

lemma run_inv:
  assumes "channel_inv u"
  shows "\<exists>tr. run ops (mb, u) = Some tr \<and> channel_inv (snd (final (mb, u) tr)) \<and>
           (\<forall>sd. base (buffer_of sd (snd (final (mb, u) tr))) = base (buffer_of sd u) \<and>
                  length_bytes (buffer_of sd (snd (final (mb, u) tr)))
                    = length_bytes (buffer_of sd u) \<and>
                  unat (fillLevel (buffer_of sd (snd (final (mb, u) tr))))
                    = foldl (fill_after (unat (length_bytes (buffer_of sd u))) sd)
                        (unat (fillLevel (buffer_of sd u))) (map snd tr))"
  using assms
proof (induction ops arbitrary: mb u)
  case Nil
  then show ?case by (simp add: final_Nil)
next
  case (Cons x ops)
  obtain mb' u' out where st: "step x (mb, u) = Some ((mb', u'), out)"
    and inv': "channel_inv u'"
    and same: "\<And>sd. base (buffer_of sd u') = base (buffer_of sd u)"
              "\<And>sd. length_bytes (buffer_of sd u') = length_bytes (buffer_of sd u)"
    and fill: "\<And>sd. unat (fillLevel (buffer_of sd u'))
                 = fill_after (unat (length_bytes (buffer_of sd u))) sd
                     (unat (fillLevel (buffer_of sd u))) out"
    using step_inv [OF Cons.prems, of x mb] by blast
  obtain tr where tr: "run ops (mb', u') = Some tr"
    and fin: "channel_inv (snd (final (mb', u') tr))"
    and rest: "\<And>sd. base (buffer_of sd (snd (final (mb', u') tr))) = base (buffer_of sd u')"
        "\<And>sd. length_bytes (buffer_of sd (snd (final (mb', u') tr)))
                 = length_bytes (buffer_of sd u')"
        "\<And>sd. unat (fillLevel (buffer_of sd (snd (final (mb', u') tr))))
                 = foldl (fill_after (unat (length_bytes (buffer_of sd u'))) sd)
                     (unat (fillLevel (buffer_of sd u'))) (map snd tr)"
    using Cons.IH [OF inv', of mb'] by blast
  have "run (x # ops) (mb, u) = Some (((mb', u'), out) # tr)"
    by (simp add: st tr)
  moreover have "channel_inv (snd (final (mb, u) (((mb', u'), out) # tr)))"
    using fin by (simp add: final_Cons)
  moreover have "base (buffer_of sd (snd (final (mb, u) (((mb', u'), out) # tr))))
                   = base (buffer_of sd u)" for sd
    using rest(1) same(1) by (simp add: final_Cons)
  moreover have "length_bytes (buffer_of sd (snd (final (mb, u) (((mb', u'), out) # tr))))
                   = length_bytes (buffer_of sd u)" for sd
    using rest(2) same(2) by (simp add: final_Cons)
  moreover have "unat (fillLevel (buffer_of sd (snd (final (mb, u) (((mb', u'), out) # tr)))))
                   = foldl (fill_after (unat (length_bytes (buffer_of sd u))) sd)
                       (unat (fillLevel (buffer_of sd u))) (map snd (((mb', u'), out) # tr))"
    for sd
    using rest(3) [of sd] same(2) [of sd] fill [of sd] by (simp add: final_Cons)
  ultimately show ?case by blast
qed

lemma u16_pos: "(x::uint16_t) \<noteq> 0 \<Longrightarrow> 0 < unat x"
  by (simp add: unat_gt_0)

lemma fresh_buffer_inv:
  "buffer_inv \<lparr>base = p, length_bytes = l, head = p, tail = p, fillLevel = 0,
               highWater = 0, mutex = Available\<rparr>"
  using u16_pos [of l] by (auto simp add: buffer_inv_def in_region_def)

lemma initUsart_channel_inv:
  assumes "initUsart M u0 a txSize rxSize = Some (u, a')" and "M \<le> 65536"
  shows "channel_inv u"
proof -
  note init = initUsart_Some [OF assms(1)]
  have sum: "unat a + unat txSize + unat rxSize \<le> 65536"
    using init(3) assms(2) uint_nat [of a] uint_nat [of txSize] uint_nat [of rxSize]
    by linarith
  have rt: "region_fits (txBuffer u)"
    using sum by (simp add: init(1) region_fits_def)
  have rr: "region_fits (rxBuffer u)"
  proof (cases "rxSize = 0")
    case True
    then show ?thesis
      using u16_bound [of "a + txSize"] by (simp add: init(2) region_fits_def)
  next
    case False
    then have "0 < unat rxSize" by (rule u16_pos)
    with sum have "unat a + unat txSize < 65536" by linarith
    then have "unat (a + txSize) = unat a + unat txSize" by (rule u16_add)
    then show ?thesis
      using sum by (simp add: init(2) region_fits_def)
  qed
  have it: "buffer_inv (txBuffer u)"
    unfolding init(1) by (rule fresh_buffer_inv)
  have ir: "buffer_inv (rxBuffer u)"
    unfolding init(2) by (rule fresh_buffer_inv)
  have g: "guards_free u"
    by (simp add: guards_free_def init(1,2))
  show ?thesis
    unfolding channel_inv_def all_side using g rt rr it ir by simp
qed

text \<open>
  C7, as amended. A channel set up by \<open>initUsart\<close> in a master buffer of at most 65536
  bytes, and any sequence of push, pop, \<open>writeBytes\<close> and \<open>readBytes\<close> calls: the
  sequence runs to its end and then, for either buffer, base and length are what
  \<open>initUsart\<close> made them, \<open>fillLevel \<le> length\<close>, the fill level is what
  \<open>fill_model\<close> computes from the outcomes (each accepted push added with the sum
  capped at the length at that push, each removal subtracted), and head and tail lie in
  \<open>[base, base + length)\<close> when the length is not 0. Every prefix of a sequence is a
  sequence, so this holds after every operation.
\<close>

theorem fillLevel_and_pointers_stay_in_range:
  assumes "initUsart M u0 a txSize rxSize = Some (u, a')" and "M \<le> 65536"
  shows "\<exists>tr. run ops (mb, u) = Some tr \<and>
           (\<forall>sd. base (buffer_of sd (snd (final (mb, u) tr))) = base (buffer_of sd u) \<and>
                  length_bytes (buffer_of sd (snd (final (mb, u) tr)))
                    = length_bytes (buffer_of sd u) \<and>
                  fillLevel (buffer_of sd (snd (final (mb, u) tr)))
                    \<le> length_bytes (buffer_of sd u) \<and>
                  unat (fillLevel (buffer_of sd (snd (final (mb, u) tr))))
                    = fill_model (unat (length_bytes (buffer_of sd u))) sd (map snd tr) \<and>
                  (length_bytes (buffer_of sd u) \<noteq> 0 \<longrightarrow>
                     in_region (buffer_of sd u) (head (buffer_of sd (snd (final (mb, u) tr)))) \<and>
                     in_region (buffer_of sd u) (tail (buffer_of sd (snd (final (mb, u) tr))))))"
proof -
  have inv: "channel_inv u"
    using assms by (rule initUsart_channel_inv)
  have z: "fillLevel (buffer_of sd u) = 0" for sd
    using initUsart_Some(1,2) [OF assms(1)] by (cases sd) simp_all
  obtain tr where tr: "run ops (mb, u) = Some tr"
    and fin: "channel_inv (snd (final (mb, u) tr))"
    and same: "\<And>sd. base (buffer_of sd (snd (final (mb, u) tr))) = base (buffer_of sd u)"
        "\<And>sd. length_bytes (buffer_of sd (snd (final (mb, u) tr)))
                 = length_bytes (buffer_of sd u)"
    and fill: "\<And>sd. unat (fillLevel (buffer_of sd (snd (final (mb, u) tr))))
                 = foldl (fill_after (unat (length_bytes (buffer_of sd u))) sd)
                     (unat (fillLevel (buffer_of sd u))) (map snd tr)"
    using run_inv [OF inv, of ops mb] by blast
  have bi: "buffer_inv (buffer_of sd (snd (final (mb, u) tr)))" for sd
    using fin by (simp add: channel_inv_def)
  have "fillLevel (buffer_of sd (snd (final (mb, u) tr))) \<le> length_bytes (buffer_of sd u)"
    for sd
    using bi [of sd] same(2) [of sd] by (simp add: buffer_inv_def)
  moreover have "unat (fillLevel (buffer_of sd (snd (final (mb, u) tr))))
                   = fill_model (unat (length_bytes (buffer_of sd u))) sd (map snd tr)" for sd
    using fill [of sd] by (simp add: fill_model_def z)
  moreover have "length_bytes (buffer_of sd u) \<noteq> 0 \<Longrightarrow>
                   in_region (buffer_of sd u) (head (buffer_of sd (snd (final (mb, u) tr)))) \<and>
                   in_region (buffer_of sd u) (tail (buffer_of sd (snd (final (mb, u) tr))))"
    for sd
    using bi [of sd] same [of sd] by (simp add: buffer_inv_def in_region_def)
  ultimately show ?thesis
    using tr same by blast
qed

theorem fillLevel_and_pointers_stay_in_range_witness:
  "initUsart 32 unsetUSART 0 8 8 = Some (channel 8, 16) \<and> (32::int) \<le> 65536 \<and>
   (\<exists>tr. run [WriteBytes [0x41, 0x42, 0x43] 3, Push Tx 0x0A, Pop Tx, Push Rx 0x44,
              ReadBytes [0, 0] 2] (emptyMaster, channel 8) = Some tr \<and>
      (\<forall>sd. base (buffer_of sd (snd (final (emptyMaster, channel 8) tr)))
               = base (buffer_of sd (channel 8)) \<and>
             length_bytes (buffer_of sd (snd (final (emptyMaster, channel 8) tr)))
               = length_bytes (buffer_of sd (channel 8)) \<and>
             fillLevel (buffer_of sd (snd (final (emptyMaster, channel 8) tr)))
               \<le> length_bytes (buffer_of sd (channel 8)) \<and>
             unat (fillLevel (buffer_of sd (snd (final (emptyMaster, channel 8) tr))))
               = fill_model (unat (length_bytes (buffer_of sd (channel 8)))) sd (map snd tr) \<and>
             (length_bytes (buffer_of sd (channel 8)) \<noteq> 0 \<longrightarrow>
                in_region (buffer_of sd (channel 8))
                  (head (buffer_of sd (snd (final (emptyMaster, channel 8) tr)))) \<and>
                in_region (buffer_of sd (channel 8))
                  (tail (buffer_of sd (snd (final (emptyMaster, channel 8) tr)))))))"
proof -
  have h1: "initUsart 32 unsetUSART 0 8 8 = Some (channel 8, 16)"
    by code_simp
  have h2: "(32::int) \<le> 65536"
    by simp
  show ?thesis
    by (intro conjI h1 h2 fillLevel_and_pointers_stay_in_range [OF h1 h2])
qed

text \<open>
  C7 as stated fails on the clamp. On a transmit buffer of length 2, \<open>writeBytes\<close> of
  2 bytes, a push and a pop leave fillLevel at 1 (the push found the buffer full and
  added nothing), while 3 bytes accepted minus 1 byte popped, clamped to \<open>[0, 2]\<close>,
  is 2.
\<close>

theorem fillLevel_is_not_the_clamped_difference:
  "\<not> fill_is_clamped_difference [WriteBytes [0x41, 0x42] 2, Push Tx 0x0A, Pop Tx]
       (emptyMaster, channel 2) Tx"
  by code_simp



section \<open>Block copies into the ring\<close>

lemma length_memcpy: "length (memcpy dst d src s n) = length dst"
  by (induction n) simp_all

lemma nth_memcpy:
  "j < length dst \<Longrightarrow>
     memcpy dst d src s n ! j = (if d \<le> j \<and> j < d + n then src ! (s + (j - d)) else dst ! j)"
proof (induction n)
  case 0
  then show ?case by auto
next
  case (Suc n)
  show ?case
  proof (cases "j = d + n")
    case True
    then show ?thesis using Suc.prems by (simp add: length_memcpy)
  next
    case False
    then have "(d \<le> j \<and> j < d + Suc n) = (d \<le> j \<and> j < d + n)" by linarith
    then show ?thesis using False Suc by simp
  qed
qed

lemma ring_write_nowrap:
  assumes "T + N \<le> L" and "B + L \<le> length mb"
  shows "k < N \<Longrightarrow> memcpy mb (B + T) bytes 0 N ! (B + (T + k) mod L) = bytes ! k"
    and "j < length mb \<Longrightarrow> (\<forall>k<N. j \<noteq> B + (T + k) mod L) \<Longrightarrow>
           memcpy mb (B + T) bytes 0 N ! j = mb ! j"
proof -
  show "memcpy mb (B + T) bytes 0 N ! (B + (T + k) mod L) = bytes ! k" if "k < N"
  proof -
    have "(T + k) mod L = T + k" using that assms(1) by simp
    moreover have "B + (T + k) < length mb" using that assms by linarith
    ultimately show ?thesis using that by (simp add: nth_memcpy)
  qed
  show "memcpy mb (B + T) bytes 0 N ! j = mb ! j"
    if j: "j < length mb" and out: "\<forall>k<N. j \<noteq> B + (T + k) mod L"
  proof -
    have "\<not> (B + T \<le> j \<and> j < B + T + N)"
    proof
      assume in_range: "B + T \<le> j \<and> j < B + T + N"
      then have "j - (B + T) < N" by linarith
      moreover have "T + (j - (B + T)) < L"
        using in_range assms by linarith
      then have "(T + (j - (B + T))) mod L = T + (j - (B + T))"
        by (rule mod_less)
      ultimately have "j \<noteq> B + (T + (j - (B + T)))"
        using out by metis
      then show False using in_range by linarith
    qed
    then show ?thesis using j by (auto simp add: nth_memcpy)
  qed
qed

lemma ring_write_wrap:
  assumes "T < L" and "L < T + N" and "N \<le> L" and "B + L \<le> length mb"
  shows "k < N \<Longrightarrow>
           memcpy (memcpy mb (B + T) bytes 0 (L - T)) B bytes (L - T) (N - (L - T))
             ! (B + (T + k) mod L) = bytes ! k"
    and "j < length mb \<Longrightarrow> (\<forall>k<N. j \<noteq> B + (T + k) mod L) \<Longrightarrow>
           memcpy (memcpy mb (B + T) bytes 0 (L - T)) B bytes (L - T) (N - (L - T)) ! j
             = mb ! j"
proof -
  let ?mb1 = "memcpy mb (B + T) bytes 0 (L - T)"
  let ?mb2 = "memcpy ?mb1 B bytes (L - T) (N - (L - T))"
  have len1: "length ?mb1 = length mb" by (simp add: length_memcpy)
  show "?mb2 ! (B + (T + k) mod L) = bytes ! k" if k: "k < N"
  proof (cases "T + k < L")
    case True
    then have m: "(T + k) mod L = T + k" by simp
    have "B + (T + k) < length mb" using True assms(4) by linarith
    moreover have "\<not> (B + (T + k) < B + (N - (L - T)))" using assms by linarith
    ultimately show ?thesis using True by (simp add: m nth_memcpy len1)
  next
    case False
    define p where "p = T + k - L"
    have m: "(T + k) mod L = p"
      using False k assms by (simp add: le_mod_geq p_def)
    have lt: "B + p < length ?mb1" using False k assms by (simp add: len1 p_def)
    have rng: "B \<le> B + p \<and> B + p < B + (N - (L - T))"
      using False k assms by (simp add: p_def) linarith
    have src: "L - T + (B + p - B) = k" using False assms by (simp add: p_def)
    have "?mb2 ! (B + p) = bytes ! (L - T + (B + p - B))"
      using nth_memcpy [OF lt, of B bytes "L - T" "N - (L - T)"] rng by simp
    then show ?thesis by (simp only: m src)
  qed
  show "?mb2 ! j = mb ! j" if j: "j < length mb" and out: "\<forall>k<N. j \<noteq> B + (T + k) mod L"
  proof -
    have a: "\<not> (B + T \<le> j \<and> j < B + T + (L - T))"
    proof
      assume in_range: "B + T \<le> j \<and> j < B + T + (L - T)"
      then have "j - (B + T) < N" using assms by linarith
      moreover have "T + (j - (B + T)) < L"
        using in_range assms by linarith
      then have "(T + (j - (B + T))) mod L = T + (j - (B + T))"
        by (rule mod_less)
      ultimately have "j \<noteq> B + (T + (j - (B + T)))"
        using out by metis
      then show False using in_range by linarith
    qed
    have b: "\<not> (B \<le> j \<and> j < B + (N - (L - T)))"
    proof
      assume in_range: "B \<le> j \<and> j < B + (N - (L - T))"
      define k where "k = j - B + (L - T)"
      have kN: "k < N" using in_range assms by (simp add: k_def) linarith
      have "T + k = L + (j - B)" using in_range assms by (simp add: k_def)
      moreover have "j - B < L" using in_range assms by linarith
      ultimately have "(T + k) mod L = j - B" by simp
      then have "j \<noteq> B + (j - B)" using out kN by metis
      then show False using in_range by linarith
    qed
    show ?thesis using j a b by (auto simp add: nth_memcpy len1)
  qed
qed


section \<open>Slots of the ring\<close>

lemma write_mem_slots:
  assumes rf: "region_fits b" and ir: "in_region b (tail b)" and nl: "n \<le> length_bytes b"
    and inside: "unat (base b) + unat (length_bytes b) \<le> length mb"
  shows "k < unat n \<Longrightarrow> write_mem mb b bytes n ! slot b (tail b) k = bytes ! k"
    and "j < length mb \<Longrightarrow> (\<forall>k<unat n. j \<noteq> slot b (tail b) k) \<Longrightarrow>
           write_mem mb b bytes n ! j = mb ! j"
proof -
  define B L T N where "B = unat (base b)" and "L = unat (length_bytes b)"
    and "T = unat (tail b) - unat (base b)" and "N = unat n"
  define sp where "sp = base b + length_bytes b - tail b"
  have P: "unat (tail b) = B + T" and TL: "T < L"
    using ir by (auto simp add: in_region_def B_def L_def T_def)
  have NL: "N \<le> L"
    using nl by (simp add: word_le_nat_alt N_def L_def)
  have BL: "B + L \<le> length mb"
    using inside by (simp add: B_def L_def)
  have sp: "unat sp = L - T"
    using space_unat [OF rf ir] P by (simp add: sp_def B_def [symmetric] L_def [symmetric])
  have sl: "slot b (tail b) k = B + (T + k) mod L" for k
    by (simp add: slot_def B_def L_def T_def)
  have le: "n \<le> sp \<longleftrightarrow> T + N \<le> L"
    using TL by (simp add: word_le_nat_alt sp N_def) linarith
  have both: "(\<forall>k<N. write_mem mb b bytes n ! (B + (T + k) mod L) = bytes ! k) \<and>
              (\<forall>j<length mb. (\<forall>k<N. j \<noteq> B + (T + k) mod L) \<longrightarrow>
                   write_mem mb b bytes n ! j = mb ! j)"
  proof (cases "T + N \<le> L")
    case True
    then have "write_mem mb b bytes n = memcpy mb (B + T) bytes 0 N"
      using le by (simp add: write_mem_def Let_def sp_def [symmetric] P N_def)
    then show ?thesis
      using ring_write_nowrap [OF True BL, of _ bytes] by simp
  next
    case False
    then have w: "L < T + N" by simp
    have "unat sp \<le> unat n" using False sp TL by (simp add: N_def)
    then have "unat (n - sp) = N - (L - T)"
      by (simp add: u16_sub sp N_def)
    then have "write_mem mb b bytes n
                 = memcpy (memcpy mb (B + T) bytes 0 (L - T)) B bytes (L - T) (N - (L - T))"
      using le False by (simp add: write_mem_def Let_def sp_def [symmetric] P sp B_def)
    then show ?thesis
      using ring_write_wrap [OF TL w NL BL, of _ bytes] by simp
  qed
  show "write_mem mb b bytes n ! slot b (tail b) k = bytes ! k" if "k < unat n"
    using both that by (simp add: sl N_def)
  show "write_mem mb b bytes n ! j = mb ! j"
    if "j < length mb" and "\<forall>k<unat n. j \<noteq> slot b (tail b) k"
    using both that by (simp add: sl N_def)
qed

lemma slot_0: "in_region b p \<Longrightarrow> slot b p 0 = unat p"
proof -
  assume "in_region b p"
  then have "unat (base b) \<le> unat p" and "unat p - unat (base b) < unat (length_bytes b)"
    by (auto simp add: in_region_def)
  then show ?thesis by (simp add: slot_def)
qed

lemma slot_inside:
  "length_bytes b \<noteq> 0 \<Longrightarrow> slot b p k < unat (base b) + unat (length_bytes b)"
  using u16_pos [of "length_bytes b"] by (simp add: slot_def)

lemma ptr_inc_slot:
  assumes "region_fits b" and "in_region b p"
  shows "unat (ptr_inc b p) = slot b p 1"
proof (cases "unat p + 1 = unat (base b) + unat (length_bytes b)")
  case True
  then have "unat p - unat (base b) + 1 = unat (length_bytes b)"
    using assms(2) by (simp add: in_region_def)
  then show ?thesis
    using True ptr_inc_unat [OF assms] by (simp add: slot_def)
next
  case False
  then have "unat p - unat (base b) + 1 < unat (length_bytes b)"
    using assms(2) by (simp add: in_region_def) linarith
  then show ?thesis
    using False assms(2) ptr_inc_unat [OF assms] by (simp add: slot_def in_region_def)
qed

lemma slot_after_inc:
  assumes "region_fits b" and "in_region b p"
    and "base b' = base b" and "length_bytes b' = length_bytes b"
  shows "slot b' (ptr_inc b p) k = slot b p (Suc k)"
proof -
  have "unat (ptr_inc b p) - unat (base b)
          = (unat p - unat (base b) + 1) mod unat (length_bytes b)"
    using ptr_inc_slot [OF assms(1,2)] by (simp add: slot_def)
  then show ?thesis
    by (simp add: slot_def assms(3,4) mod_add_left_eq)
qed

lemma bufferPopN_slots:
  assumes "mutex b = Available" and "region_fits b" and "in_region b (head b)"
    and "k \<le> unat (fillLevel b)"
  shows "snd (bufferPopN mb b k) = map (\<lambda>i. Some (mb ! slot b (head b) i)) [0..<k]"
  using assms
proof (induction k arbitrary: b)
  case 0
  then show ?case by simp
next
  case (Suc k)
  define b1 where "b1 = b\<lparr>head := ptr_inc b (head b), fillLevel := fillLevel b - 1\<rparr>"
  have nz: "fillLevel b \<noteq> 0"
    using Suc.prems(4) by (auto simp add: word_unat_eq_iff)
  have pop: "bufferPop mb b = (b1, True, Some (mb ! unat (head b)))"
    using nz by (simp add: bufferPop_Available [OF Suc.prems(1)] b1_def)
  have m1: "mutex b1 = Available" using Suc.prems(1) by (simp add: b1_def)
  have r1: "region_fits b1" using Suc.prems(2) by (simp add: b1_def region_fits_def)
  have i1: "in_region b1 (head b1)"
    using ptr_inc_in_region [OF Suc.prems(2,3)] by (simp add: b1_def in_region_def)
  have k1: "k \<le> unat (fillLevel b1)"
    using Suc.prems(4) nz by (simp add: b1_def pop_fill_unat)
  have sh: "slot b1 (head b1) i = slot b (head b) (Suc i)" for i
    using slot_after_inc [OF Suc.prems(2,3), of b1 i] by (simp add: b1_def)
  have "snd (bufferPopN mb b (Suc k))
          = Some (mb ! unat (head b)) # snd (bufferPopN mb b1 k)"
    by (simp add: pop split: prod.split)
  also have "\<dots> = Some (mb ! slot b (head b) 0)
                    # map (\<lambda>i. Some (mb ! slot b (head b) (Suc i))) [0..<k]"
    using Suc.IH [OF m1 r1 i1 k1] by (simp add: sh slot_0 [OF Suc.prems(3)])
  also have "\<dots> = map (\<lambda>i. Some (mb ! slot b (head b) i)) [0..<Suc k]"
    by (simp only: map_upt_Suc)
  finally show ?case .
qed


section \<open>A write across the end of the region\<close>

lemma mod_distinct:
  fixes H i j L :: nat
  assumes "i < j" and "j - i < L"
  shows "(H + i) mod L \<noteq> (H + j) mod L"
proof
  assume "(H + i) mod L = (H + j) mod L"
  then have "(H + j) mod L = (H + i) mod L" by simp
  then have "L dvd (H + j) - (H + i)"
    using assms(1) by (simp add: mod_eq_dvd_iff_nat)
  then have "L dvd j - i" by simp
  then show False
    using assms by (simp add: nat_dvd_not_less)
qed

lemma slot_from_tail:
  assumes "unat (tail b) = slot b (head b) F"
  shows "slot b (tail b) k = slot b (head b) (F + k)"
proof -
  have "unat (tail b) - unat (base b)
          = (unat (head b) - unat (base b) + F) mod unat (length_bytes b)"
    using assms by (simp add: slot_def)
  then show ?thesis
    by (simp add: slot_def mod_add_left_eq add.assoc)
qed

lemma slot_distinct:
  assumes "i < j" and "j < unat (length_bytes b)"
  shows "slot b p i \<noteq> slot b p j"
proof -
  have "j - i < unat (length_bytes b)" using assms by linarith
  then show ?thesis
    using mod_distinct [OF assms(1), of "unat (length_bytes b)" "unat p - unat (base b)"]
    by (simp add: slot_def)
qed

text \<open>
  A well-formed transmit buffer and \<open>n\<close> bytes that fit beside the queued ones:
  \<open>writeBytes\<close> accepts them, and popping everything returns the bytes queued before
  followed by the \<open>n\<close> written bytes, in input order.
\<close>

lemma write_then_pop_in_order:
  assumes wf: "well_formed mb (txBuffer u)"
    and fit: "unat (fillLevel (txBuffer u)) + unat n \<le> unat (length_bytes (txBuffer u))"
    and src: "unat n \<le> length bytes"
  shows "\<exists>mb' u'. writeBytes mb u bytes n = (mb', u', n) \<and>
           fillLevel (txBuffer u') = fillLevel (txBuffer u) + n \<and>
           snd (bufferPopN mb' (txBuffer u') (unat (fillLevel (txBuffer u'))))
             = map Some (queued mb (txBuffer u) @ take (unat n) bytes)"
proof -
  define t where "t = txBuffer u"
  define F N where "F = unat (fillLevel t)" and "N = unat n"
  define mb' where "mb' = write_mem mb t bytes n"
  define t' where "t' = t\<lparr>tail := ptr_add t (tail t) n, fillLevel := write_fill t n,
                          highWater := raise_mark (highWater t) (write_fill t n)\<rparr>"
  have mx: "mutex t = Available" and rf: "region_fits t"
    and inside: "unat (base t) + unat (length_bytes t) \<le> length mb"
    and fl: "fillLevel t \<le> length_bytes t"
    and ih: "in_region t (head t)" and it: "in_region t (tail t)"
    and tl: "unat (tail t) = slot t (head t) F"
    using wf by (simp_all add: well_formed_def usable_def t_def F_def)
  have FN: "F + N \<le> unat (length_bytes t)"
    using fit by (simp add: t_def F_def N_def)
  then have nl: "n \<le> length_bytes t"
    by (simp add: word_le_nat_alt N_def)
  have nz: "length_bytes t \<noteq> 0"
    using ih by (auto simp add: in_region_def)
  have wr: "writeBytes mb u bytes n = (mb', u\<lparr>txBuffer := t', txeInterrupt := True\<rparr>, n)"
    using writeBytes_Available [of u n mb bytes] mx nl
    by (simp add: t_def mb'_def t'_def)
  have wfill: "write_fill t n = fillLevel t + n"
    using FN by (simp add: write_fill_def F_def N_def)
  have fill': "unat (fillLevel t') = F + N"
    using FN write_fill_unat [OF fl, of n] by (simp add: t'_def F_def N_def)
  have sl: "slot t' (head t') i = slot t (head t) i" for i
    by (simp add: slot_def t'_def)
  have pops: "snd (bufferPopN mb' t' (F + N))
                = map (\<lambda>i. Some (mb' ! slot t (head t) i)) [0..<F + N]"
    using bufferPopN_slots [of t' "F + N" mb'] mx rf ih fill'
    by (simp add: sl) (simp add: t'_def region_fits_def in_region_def)
  have old: "mb' ! slot t (head t) i = mb ! slot t (head t) i" if "i < F" for i
  proof -
    have "slot t (head t) i < length mb"
      using slot_inside [OF nz, of "head t" i] inside by linarith
    moreover have "\<forall>k<unat n. slot t (head t) i \<noteq> slot t (tail t) k"
    proof (intro allI impI)
      fix k assume "k < unat n"
      then have "F + k < unat (length_bytes t)" using FN by (simp add: N_def)
      moreover have "i < F + k" using that by simp
      ultimately show "slot t (head t) i \<noteq> slot t (tail t) k"
        using slot_distinct [of i "F + k" t "head t"] by (simp add: slot_from_tail [OF tl])
    qed
    ultimately show ?thesis
      unfolding mb'_def by (rule write_mem_slots(2) [OF rf it nl inside])
  qed
  have new: "mb' ! slot t (head t) i = bytes ! (i - F)" if "F \<le> i" and "i < F + N" for i
  proof -
    have "i - F < unat n" using that by (simp add: N_def)
    then have "mb' ! slot t (tail t) (i - F) = bytes ! (i - F)"
      unfolding mb'_def by (rule write_mem_slots(1) [OF rf it nl inside])
    then show ?thesis using that by (simp add: slot_from_tail [OF tl])
  qed
  have "map (\<lambda>i. Some (mb' ! slot t (head t) i)) [0..<F + N]
          = map Some (queued mb t @ take N bytes)"
  proof (rule nth_equalityI)
    show "length (map (\<lambda>i. Some (mb' ! slot t (head t) i)) [0..<F + N])
            = length (map Some (queued mb t @ take N bytes))"
      using src by (simp add: queued_def F_def N_def)
  next
    fix i assume "i < length (map (\<lambda>i. Some (mb' ! slot t (head t) i)) [0..<F + N])"
    then have i: "i < F + N" by simp
    show "map (\<lambda>i. Some (mb' ! slot t (head t) i)) [0..<F + N] ! i
            = map Some (queued mb t @ take N bytes) ! i"
    proof (cases "i < F")
      case True
      then show ?thesis
        using i src old [OF True] by (simp add: queued_def F_def [symmetric] nth_append)
    next
      case False
      then have "F \<le> i" by simp
      then show ?thesis
        using i src new [OF \<open>F \<le> i\<close> i] False
        by (simp add: queued_def F_def [symmetric] N_def [symmetric] nth_append)
    qed
  qed
  with pops fill' have "snd (bufferPopN mb' t' (unat (fillLevel t')))
                          = map Some (queued mb t @ take N bytes)"
    by simp
  moreover have "fillLevel t' = fillLevel t + n"
    by (simp add: t'_def wfill)
  ultimately show ?thesis
    using wr by (simp add: t_def N_def)
qed

text \<open>
  Any usable transmit buffer: the bytes popped after a write are the ring as it was,
  overlaid with the written bytes from the tail on. Nothing in this depends on where the
  region ends.
\<close>

lemma mod_shift_back:
  fixes i L toff X :: nat
  assumes "toff < L"
  shows "(X + toff + (i + L - toff) mod L) mod L = (X + i) mod L"
proof -
  have "(X + toff + (i + L - toff) mod L) mod L = (X + toff + (i + L - toff)) mod L"
    by (simp add: mod_add_right_eq)
  also have "X + toff + (i + L - toff) = X + i + L"
    using assms by simp
  also have "(X + i + L) mod L = (X + i) mod L"
    by simp
  finally show ?thesis .
qed

lemma mod_same_offset:
  fixes X k k' L :: nat
  assumes "k < L" and "k' < L" and "(X + k) mod L = (X + k') mod L"
  shows "k = k'"
proof (rule ccontr)
  assume ne: "k \<noteq> k'"
  show False
  proof (cases "k < k'")
    case True
    then have "k' - k < L" using assms(2) by simp
    then show False using mod_distinct [OF True, of L X] assms(3) by simp
  next
    case False
    then have lt: "k' < k" using ne by simp
    then have "k - k' < L" using assms(1) by simp
    then show False using mod_distinct [OF lt, of L X] assms(3) by simp
  qed
qed

lemma slot_tail_as_head:
  assumes "in_region b (head b)" and "in_region b (tail b)"
  shows "slot b (tail b) k = slot b (head b) (tail_offset b + k)"
proof -
  define B L H T where "B = unat (base b)" and "L = unat (length_bytes b)"
    and "H = unat (head b) - unat (base b)" and "T = unat (tail b) - unat (base b)"
  have hd: "unat (head b) = B + H" and tl: "unat (tail b) = B + T" and HL: "H < L" and TL: "T < L"
    using assms by (auto simp add: in_region_def B_def L_def H_def T_def)
  have toff: "tail_offset b = (T + L - H) mod L"
    using HL by (simp add: tail_offset_def hd tl L_def [symmetric])
  have "(H + (tail_offset b + k)) mod L = (H + (T + L - H) mod L + k) mod L"
    by (simp add: toff add.assoc)
  also have "\<dots> = ((H + (T + L - H) mod L) mod L + k) mod L"
    by (simp add: mod_add_left_eq)
  also have "(H + (T + L - H) mod L) mod L = (H + (T + L - H)) mod L"
    by (simp add: mod_add_right_eq)
  also have "H + (T + L - H) = T + L"
    using HL by simp
  also have "((T + L) mod L + k) mod L = (T + k) mod L"
    by (simp add: mod_add_left_eq)
  finally have "(H + (tail_offset b + k)) mod L = (T + k) mod L" .
  then show ?thesis
    unfolding slot_def H_def T_def L_def by simp
qed

lemma tail_offset_less: "length_bytes b \<noteq> 0 \<Longrightarrow> tail_offset b < unat (length_bytes b)"
  using u16_pos [of "length_bytes b"] by (simp add: tail_offset_def)


lemma slot_written:
  assumes ih: "in_region b (head b)" and it: "in_region b (tail b)"
  shows "slot b (tail b) ((i + unat (length_bytes b) - tail_offset b) mod unat (length_bytes b))
           = slot b (head b) i"
    and "k < unat (length_bytes b) \<Longrightarrow> slot b (tail b) k = slot b (head b) i \<Longrightarrow>
           k = (i + unat (length_bytes b) - tail_offset b) mod unat (length_bytes b)"
proof -
  define L where "L = unat (length_bytes b)"
  define H where "H = unat (head b) - unat (base b)"
  define k0 where "k0 = (i + L - tail_offset b) mod L"
  have Lpos: "0 < L" using ih by (auto simp add: in_region_def L_def)
  have tlt: "tail_offset b < L"
    using Lpos by (simp add: tail_offset_def L_def)
  have k0L: "k0 < L" using Lpos by (simp add: k0_def)
  have sh: "slot b (head b) x = unat (base b) + (H + x) mod L" for x
    by (simp add: slot_def H_def L_def)
  have a: "slot b (tail b) k0 = slot b (head b) i"
    using mod_shift_back [OF tlt, of H i]
    by (simp add: slot_tail_as_head [OF ih it] sh k0_def add.assoc)
  show "slot b (tail b) ((i + unat (length_bytes b) - tail_offset b) mod unat (length_bytes b))
          = slot b (head b) i"
    using a by (simp add: k0_def L_def)
  show "k = (i + unat (length_bytes b) - tail_offset b) mod unat (length_bytes b)"
    if kL: "k < unat (length_bytes b)" and eq: "slot b (tail b) k = slot b (head b) i"
  proof -
    have "slot b (tail b) k = slot b (tail b) k0" using eq a by simp
    then have "(H + tail_offset b + k) mod L = (H + tail_offset b + k0) mod L"
      by (simp add: slot_tail_as_head [OF ih it] sh add.assoc)
    then have "k = k0"
      using mod_same_offset [of k L k0 "H + tail_offset b"] kL k0L by (simp add: L_def)
    then show ?thesis by (simp add: k0_def L_def)
  qed
qed

lemma write_mem_ring:
  assumes us: "usable mb t" and nl: "n \<le> length_bytes t" and iL: "i < unat (length_bytes t)"
  shows "write_mem mb t bytes n ! slot t (head t) i
           = overlay (unat (length_bytes t)) (tail_offset t) (unat n) bytes (ring mb t) i"
proof -
  have rf: "region_fits t" and inside: "unat (base t) + unat (length_bytes t) \<le> length mb"
    and ih: "in_region t (head t)" and it: "in_region t (tail t)"
    using us by (simp_all add: usable_def)
  define k0 where "k0 = (i + unat (length_bytes t) - tail_offset t) mod unat (length_bytes t)"
  have nz: "length_bytes t \<noteq> 0" using iL by auto
  have NL: "unat n \<le> unat (length_bytes t)" using nl by (simp add: word_le_nat_alt)
  show ?thesis
  proof (cases "k0 < unat n")
    case True
    then have "write_mem mb t bytes n ! slot t (tail t) k0 = bytes ! k0"
      by (rule write_mem_slots(1) [OF rf it nl inside])
    then show ?thesis
      using True slot_written(1) [OF ih it, of i]
      by (simp add: overlay_def Let_def k0_def)
  next
    case False
    have lt: "slot t (head t) i < length mb"
      using slot_inside [OF nz, of "head t" i] inside by linarith
    have "\<forall>k<unat n. slot t (head t) i \<noteq> slot t (tail t) k"
    proof (intro allI impI notI)
      fix k assume k: "k < unat n" and eq: "slot t (head t) i = slot t (tail t) k"
      have "k < unat (length_bytes t)" using k NL by linarith
      then have "k = k0"
        using slot_written(2) [OF ih it, of k i] eq by (simp add: k0_def)
      then show False using k False by simp
    qed
    with lt have "write_mem mb t bytes n ! slot t (head t) i = mb ! slot t (head t) i"
      by (rule write_mem_slots(2) [OF rf it nl inside])
    then show ?thesis
      using False iL by (simp add: overlay_def Let_def k0_def ring_def)
  qed
qed

lemma write_then_pop_all:
  assumes us: "usable mb (txBuffer u)" and nl: "n \<le> length_bytes (txBuffer u)"
  shows "\<exists>mb' u'. writeBytes mb u bytes n = (mb', u', n) \<and>
           snd (bufferPopN mb' (txBuffer u') (unat (fillLevel (txBuffer u'))))
             = map (\<lambda>i. Some (overlay (unat (length_bytes (txBuffer u)))
                                 (tail_offset (txBuffer u)) (unat n) bytes
                                 (ring mb (txBuffer u)) i))
                 [0..<min (unat (length_bytes (txBuffer u)))
                          (unat (fillLevel (txBuffer u)) + unat n)]"
proof -
  define t where "t = txBuffer u"
  define mb' where "mb' = write_mem mb t bytes n"
  define t' where "t' = t\<lparr>tail := ptr_add t (tail t) n, fillLevel := write_fill t n,
                          highWater := raise_mark (highWater t) (write_fill t n)\<rparr>"
  define F' where "F' = min (unat (length_bytes t)) (unat (fillLevel t) + unat n)"
  have mx: "mutex t = Available" and rf: "region_fits t"
    and fl: "fillLevel t \<le> length_bytes t" and ih: "in_region t (head t)"
    using us by (simp_all add: usable_def t_def)
  have wr: "writeBytes mb u bytes n = (mb', u\<lparr>txBuffer := t', txeInterrupt := True\<rparr>, n)"
    using writeBytes_Available [of u n mb bytes] mx nl
    by (simp add: t_def mb'_def t'_def)
  have fill': "unat (fillLevel t') = F'"
    using write_fill_unat [OF fl, of n] by (simp add: t'_def F'_def)
  have sl: "slot t' (head t') i = slot t (head t) i" for i
    by (simp add: slot_def t'_def)
  have pops: "snd (bufferPopN mb' t' F') = map (\<lambda>i. Some (mb' ! slot t (head t) i)) [0..<F']"
    using bufferPopN_slots [of t' F' mb'] mx rf ih fill'
    by (simp add: sl) (simp add: t'_def region_fits_def in_region_def)
  have "map (\<lambda>i. Some (mb' ! slot t (head t) i)) [0..<F']
          = map (\<lambda>i. Some (overlay (unat (length_bytes t)) (tail_offset t) (unat n) bytes
                              (ring mb t) i)) [0..<F']"
  proof (rule map_cong [OF refl])
    fix i assume "i \<in> set [0..<F']"
    then have "i < unat (length_bytes t)" by (simp add: F'_def)
    then show "Some (mb' ! slot t (head t) i)
                 = Some (overlay (unat (length_bytes t)) (tail_offset t) (unat n) bytes
                           (ring mb t) i)"
      unfolding mb'_def using write_mem_ring [of mb t n i bytes] us nl
      by (simp add: t_def)
  qed
  with pops fill' have "snd (bufferPopN mb' t' (unat (fillLevel t')))
      = map (\<lambda>i. Some (overlay (unat (length_bytes t)) (tail_offset t) (unat n) bytes
                          (ring mb t) i)) [0..<F']"
    by simp
  then show ?thesis
    using wr by (simp add: t_def F'_def)
qed



lemma write_then_pop_same:
  assumes "usable mb1 (txBuffer u1)" and "usable mb2 (txBuffer u2)"
    and "same_queue mb1 (txBuffer u1) mb2 (txBuffer u2)"
    and "n \<le> length_bytes (txBuffer u1)"
  shows "\<exists>mb1' u1' mb2' u2'.
           writeBytes mb1 u1 bytes n = (mb1', u1', n) \<and>
           writeBytes mb2 u2 bytes n = (mb2', u2', n) \<and>
           snd (bufferPopN mb1' (txBuffer u1') (unat (fillLevel (txBuffer u1'))))
             = snd (bufferPopN mb2' (txBuffer u2') (unat (fillLevel (txBuffer u2'))))"
proof -
  have same: "length_bytes (txBuffer u2) = length_bytes (txBuffer u1)"
    "fillLevel (txBuffer u2) = fillLevel (txBuffer u1)"
    "tail_offset (txBuffer u2) = tail_offset (txBuffer u1)"
    "ring mb2 (txBuffer u2) = ring mb1 (txBuffer u1)"
    using assms(3) by (simp_all add: same_queue_def)
  have n2: "n \<le> length_bytes (txBuffer u2)"
    using assms(4) by (simp add: same(1))
  obtain mb1' u1' where w1: "writeBytes mb1 u1 bytes n = (mb1', u1', n)"
    and p1: "snd (bufferPopN mb1' (txBuffer u1') (unat (fillLevel (txBuffer u1'))))
             = map (\<lambda>i. Some (overlay (unat (length_bytes (txBuffer u1)))
                                 (tail_offset (txBuffer u1)) (unat n) bytes
                                 (ring mb1 (txBuffer u1)) i))
                 [0..<min (unat (length_bytes (txBuffer u1)))
                          (unat (fillLevel (txBuffer u1)) + unat n)]"
    using write_then_pop_all [OF assms(1,4), of bytes] by blast
  obtain mb2' u2' where w2: "writeBytes mb2 u2 bytes n = (mb2', u2', n)"
    and p2: "snd (bufferPopN mb2' (txBuffer u2') (unat (fillLevel (txBuffer u2'))))
             = map (\<lambda>i. Some (overlay (unat (length_bytes (txBuffer u2)))
                                 (tail_offset (txBuffer u2)) (unat n) bytes
                                 (ring mb2 (txBuffer u2)) i))
                 [0..<min (unat (length_bytes (txBuffer u2)))
                          (unat (fillLevel (txBuffer u2)) + unat n)]"
    using write_then_pop_all [OF assms(2) n2, of bytes] by blast
  have "snd (bufferPopN mb1' (txBuffer u1') (unat (fillLevel (txBuffer u1'))))
          = snd (bufferPopN mb2' (txBuffer u2') (unat (fillLevel (txBuffer u2'))))"
    unfolding p1 p2 same ..
  with w1 w2 show ?thesis by blast
qed

text \<open>
  C8. Two usable transmit buffers in the same logical state and the same \<open>n\<close> bytes
  written to each, wherever head and tail stand in either region, so also when the copy
  into the first is split at the physical end of its region and the copy into the second
  is one block: both calls of \<open>writeBytes\<close> accept the \<open>n\<close> bytes, and popping
  everything each buffer then holds returns the same bytes in the same order. When the
  first buffer is well-formed and the \<open>n\<close> bytes fit beside the queued ones, these
  are the bytes queued before followed by the written bytes in input order.
\<close>

theorem wrapping_write_like_non_wrapping:
  assumes "usable mb1 (txBuffer u1)" and "usable mb2 (txBuffer u2)"
    and "same_queue mb1 (txBuffer u1) mb2 (txBuffer u2)"
    and "n \<le> length_bytes (txBuffer u1)"
  shows "\<exists>mb1' u1' mb2' u2'.
           writeBytes mb1 u1 bytes n = (mb1', u1', n) \<and>
           writeBytes mb2 u2 bytes n = (mb2', u2', n) \<and>
           snd (bufferPopN mb1' (txBuffer u1') (unat (fillLevel (txBuffer u1'))))
             = snd (bufferPopN mb2' (txBuffer u2') (unat (fillLevel (txBuffer u2')))) \<and>
           (well_formed mb1 (txBuffer u1) \<and>
            unat (fillLevel (txBuffer u1)) + unat n \<le> unat (length_bytes (txBuffer u1)) \<and>
            unat n \<le> length bytes \<longrightarrow>
              snd (bufferPopN mb1' (txBuffer u1') (unat (fillLevel (txBuffer u1'))))
                = map Some (queued mb1 (txBuffer u1) @ take (unat n) bytes))"
proof -
  obtain mb1' u1' mb2' u2' where w1: "writeBytes mb1 u1 bytes n = (mb1', u1', n)"
    and w2: "writeBytes mb2 u2 bytes n = (mb2', u2', n)"
    and eq: "snd (bufferPopN mb1' (txBuffer u1') (unat (fillLevel (txBuffer u1'))))
               = snd (bufferPopN mb2' (txBuffer u2') (unat (fillLevel (txBuffer u2'))))"
    using write_then_pop_same [OF assms, of bytes] by blast
  have "snd (bufferPopN mb1' (txBuffer u1') (unat (fillLevel (txBuffer u1'))))
          = map Some (queued mb1 (txBuffer u1) @ take (unat n) bytes)"
    if "well_formed mb1 (txBuffer u1)"
      and "unat (fillLevel (txBuffer u1)) + unat n \<le> unat (length_bytes (txBuffer u1))"
      and "unat n \<le> length bytes"
    using write_then_pop_in_order [OF that] w1 by auto
  with w1 w2 eq show ?thesis by blast
qed

lemma drained_value:
  "drained =
     ([0x31, 0x32, 0x33, 0x34, 0x35, 0x36, 0, 0, 0, 0, 0, 0, 0, 0, 0, 0,
       0, 0, 0, 0, 0, 0, 0, 0, 0, 0, 0, 0, 0, 0, 0, 0],
      \<lparr>enabled = True,
         txBuffer = \<lparr>base = 0, length_bytes = 8, head = 6, tail = 6, fillLevel = 0,
                      highWater = 6, mutex = Available\<rparr>,
         rxBuffer = \<lparr>base = 8, length_bytes = 8, head = 8, tail = 8, fillLevel = 0,
                      highWater = 0, mutex = Available\<rparr>,
         txeInterrupt = True\<rparr>)"
  by code_simp

lemma drained_at_base_value:
  "drained_at_base =
     ([0, 0, 0x31, 0x32, 0x33, 0x34, 0x35, 0x36, 0, 0, 0, 0, 0, 0, 0, 0,
       0, 0, 0, 0, 0, 0, 0, 0, 0, 0, 0, 0, 0, 0, 0, 0],
      \<lparr>enabled = True,
         txBuffer = \<lparr>base = 0, length_bytes = 8, head = 0, tail = 0, fillLevel = 0,
                      highWater = 8, mutex = Available\<rparr>,
         rxBuffer = \<lparr>base = 8, length_bytes = 8, head = 8, tail = 8, fillLevel = 0,
                      highWater = 0, mutex = Available\<rparr>,
         txeInterrupt = True\<rparr>)"
  by code_simp

text \<open>
  The instance: a buffer of length 8 after a write of 6 bytes and 6 pops, where a write
  of 5 bytes wraps, against the same queue with head and tail at the base, where it
  does not. Both read back the 5 bytes in input order.
\<close>

theorem wrapping_write_like_non_wrapping_witness:
  "usable (fst drained) (txBuffer (snd drained)) \<and>
   usable (fst drained_at_base) (txBuffer (snd drained_at_base)) \<and>
   same_queue (fst drained) (txBuffer (snd drained))
     (fst drained_at_base) (txBuffer (snd drained_at_base)) \<and>
   (5::uint16_t) \<le> length_bytes (txBuffer (snd drained)) \<and>
   copy_wraps (txBuffer (snd drained)) 5 \<and>
   \<not> copy_wraps (txBuffer (snd drained_at_base)) 5 \<and>
   (\<exists>mb1' u1' mb2' u2'.
      writeBytes (fst drained) (snd drained) [0x41, 0x42, 0x43, 0x44, 0x45] 5
        = (mb1', u1', 5) \<and>
      writeBytes (fst drained_at_base) (snd drained_at_base) [0x41, 0x42, 0x43, 0x44, 0x45] 5
        = (mb2', u2', 5) \<and>
      snd (bufferPopN mb1' (txBuffer u1') (unat (fillLevel (txBuffer u1'))))
        = snd (bufferPopN mb2' (txBuffer u2') (unat (fillLevel (txBuffer u2')))) \<and>
      snd (bufferPopN mb1' (txBuffer u1') (unat (fillLevel (txBuffer u1'))))
        = [Some 0x41, Some 0x42, Some 0x43, Some 0x44, Some 0x45])"
proof -
  have h1: "usable (fst drained) (txBuffer (snd drained))"
    by (simp add: drained_value usable_def region_fits_def in_region_def)
  have h2: "usable (fst drained_at_base) (txBuffer (snd drained_at_base))"
    by (simp add: drained_at_base_value usable_def region_fits_def in_region_def)
  have h3: "same_queue (fst drained) (txBuffer (snd drained))
              (fst drained_at_base) (txBuffer (snd drained_at_base))"
    by code_simp
  have h4: "(5::uint16_t) \<le> length_bytes (txBuffer (snd drained))"
    by (simp add: drained_value)
  have w1: "copy_wraps (txBuffer (snd drained)) 5"
    by (simp add: drained_value copy_wraps_def)
  have w2: "\<not> copy_wraps (txBuffer (snd drained_at_base)) 5"
    by (simp add: drained_at_base_value copy_wraps_def)
  have wf: "well_formed (fst drained) (txBuffer (snd drained)) \<and>
            unat (fillLevel (txBuffer (snd drained))) + unat (5::uint16_t)
              \<le> unat (length_bytes (txBuffer (snd drained))) \<and>
            unat (5::uint16_t) \<le> length [0x41, 0x42, 0x43, 0x44, 0x45 :: byte]"
    using h1 by (simp add: well_formed_def) (simp add: drained_value slot_def)
  have q: "map Some (queued (fst drained) (txBuffer (snd drained))
                     @ take (unat (5::uint16_t)) [0x41, 0x42, 0x43, 0x44, 0x45])
             = [Some 0x41, Some 0x42, Some 0x43, Some 0x44, Some 0x45]"
    by (simp add: drained_value queued_def)
  obtain mb1' u1' mb2' u2' where
    a: "writeBytes (fst drained) (snd drained) [0x41, 0x42, 0x43, 0x44, 0x45] 5
          = (mb1', u1', 5)"
    and b: "writeBytes (fst drained_at_base) (snd drained_at_base)
              [0x41, 0x42, 0x43, 0x44, 0x45] 5 = (mb2', u2', 5)"
    and c: "snd (bufferPopN mb1' (txBuffer u1') (unat (fillLevel (txBuffer u1'))))
              = snd (bufferPopN mb2' (txBuffer u2') (unat (fillLevel (txBuffer u2'))))"
    and d: "well_formed (fst drained) (txBuffer (snd drained)) \<and>
            unat (fillLevel (txBuffer (snd drained))) + unat (5::uint16_t)
              \<le> unat (length_bytes (txBuffer (snd drained))) \<and>
            unat (5::uint16_t) \<le> length [0x41, 0x42, 0x43, 0x44, 0x45 :: byte] \<longrightarrow>
            snd (bufferPopN mb1' (txBuffer u1') (unat (fillLevel (txBuffer u1'))))
              = map Some (queued (fst drained) (txBuffer (snd drained))
                          @ take (unat (5::uint16_t)) [0x41, 0x42, 0x43, 0x44, 0x45])"
    using wrapping_write_like_non_wrapping
            [OF h1 h2 h3 h4, of "[0x41, 0x42, 0x43, 0x44, 0x45]"]
    by blast
  have "snd (bufferPopN mb1' (txBuffer u1') (unat (fillLevel (txBuffer u1'))))
          = [Some 0x41, Some 0x42, Some 0x43, Some 0x44, Some 0x45]"
    using d wf q by simp
  with a b c h1 h2 h3 h4 w1 w2 show ?thesis by blast
qed

section \<open>The same behaviour on every input\<close>

text \<open>
  The evaluations above are instances of what the code does in general. Neither line
  reader ever writes head, tail or fillLevel: the channel it returns differs from the one
  it was given at most in the receive buffer's mutex.
\<close>

lemma readLine_channel:
  "\<exists>m. fst (readLine mb u buf) = u\<lparr>rxBuffer := (rxBuffer u)\<lparr>mutex := m\<rparr>\<rparr>"
proof (cases "mutex (rxBuffer u)")
  case Taken
  then have "fst (readLine mb u buf) = u\<lparr>rxBuffer := (rxBuffer u)\<lparr>mutex := Taken\<rparr>\<rparr>"
    by (simp add: readLine_def xSemaphoreTake_def)
  then show ?thesis by blast
next
  case Available
  show ?thesis
  proof (cases "fillLevel (rxBuffer u) = 0")
    case True
    then have "fst (readLine mb u buf) = u\<lparr>rxBuffer := (rxBuffer u)\<lparr>mutex := Taken\<rparr>\<rparr>"
      using Available by (simp add: readLine_def xSemaphoreTake_def Let_def)
    then show ?thesis by blast
  next
    case False
    obtain found i p where sc:
      "scanLineEnding mb ((rxBuffer u)\<lparr>mutex := Taken\<rparr>) 0 (head (rxBuffer u)) = (found, i, p)"
      by (metis prod_cases3)
    have "fst (readLine mb u buf) = u\<lparr>rxBuffer := (rxBuffer u)\<lparr>mutex := Available\<rparr>\<rparr>"
      using Available False sc
      by (cases found) (simp_all add: readLine_def xSemaphoreTake_def xSemaphoreGive_def Let_def)
    then show ?thesis by blast
  qed
qed

lemma readLine_keeps_pointers:
  "head (rxBuffer (fst (readLine mb u buf))) = head (rxBuffer u) \<and>
   tail (rxBuffer (fst (readLine mb u buf))) = tail (rxBuffer u) \<and>
   fillLevel (rxBuffer (fst (readLine mb u buf))) = fillLevel (rxBuffer u)"
proof -
  obtain m where "fst (readLine mb u buf) = u\<lparr>rxBuffer := (rxBuffer u)\<lparr>mutex := m\<rparr>\<rparr>"
    using readLine_channel by blast
  then show ?thesis by simp
qed

lemma readLineTruncate_channel:
  "\<exists>m. fst (readLineTruncate mb u buf maxLen) = u\<lparr>rxBuffer := (rxBuffer u)\<lparr>mutex := m\<rparr>\<rparr>"
proof (cases "mutex (rxBuffer u)")
  case Taken
  then have "fst (readLineTruncate mb u buf maxLen)
               = u\<lparr>rxBuffer := (rxBuffer u)\<lparr>mutex := Taken\<rparr>\<rparr>"
    by (simp add: readLineTruncate_def xSemaphoreTake_def)
  then show ?thesis by blast
next
  case Available
  show ?thesis
  proof (cases "fillLevel (rxBuffer u) = 0")
    case True
    then have "fst (readLineTruncate mb u buf maxLen)
                 = u\<lparr>rxBuffer := (rxBuffer u)\<lparr>mutex := Taken\<rparr>\<rparr>"
      using Available by (simp add: readLineTruncate_def xSemaphoreTake_def Let_def)
    then show ?thesis by blast
  next
    case False
    obtain found i p where sc:
      "scanLineEnding mb ((rxBuffer u)\<lparr>mutex := Taken\<rparr>) 0 (head (rxBuffer u)) = (found, i, p)"
      by (metis prod_cases3)
    have "fst (readLineTruncate mb u buf maxLen)
            = u\<lparr>rxBuffer := (rxBuffer u)\<lparr>mutex := Available\<rparr>\<rparr>"
      using Available False sc
      by (cases found)
         (simp_all add: readLineTruncate_def xSemaphoreTake_def xSemaphoreGive_def Let_def)
    then show ?thesis by blast
  qed
qed

lemma readLineTruncate_keeps_pointers:
  "head (rxBuffer (fst (readLineTruncate mb u buf maxLen))) = head (rxBuffer u) \<and>
   tail (rxBuffer (fst (readLineTruncate mb u buf maxLen))) = tail (rxBuffer u) \<and>
   fillLevel (rxBuffer (fst (readLineTruncate mb u buf maxLen))) = fillLevel (rxBuffer u)"
proof -
  obtain m where "fst (readLineTruncate mb u buf maxLen)
                    = u\<lparr>rxBuffer := (rxBuffer u)\<lparr>mutex := m\<rparr>\<rparr>"
    using readLineTruncate_channel by blast
  then show ?thesis by simp
qed

text \<open>
  With the mutex available, \<open>bufferPeek\<close> answers every depth below the fill level
  with its error value.
\<close>

lemma bufferPeek_inside_fill:
  assumes "mutex buf = Available" and "depth < fillLevel buf"
  shows "bufferPeek mb buf depth = (buf, 0xFF)"
  using assms by (simp add: bufferPeek_def xSemaphoreTake_def xSemaphoreGive_def Let_def)

text \<open>
  With the receive mutex available, \<open>rxBytesAvailable\<close> returns the fill level, leaves
  the receive mutex taken and makes the transmit mutex available.
\<close>

lemma rxBytesAvailable_Available:
  assumes "mutex (rxBuffer u) = Available"
  shows "rxBytesAvailable u
           = (u\<lparr>rxBuffer := (rxBuffer u)\<lparr>mutex := Taken\<rparr>,
                txBuffer := (txBuffer u)\<lparr>mutex := Available\<rparr>\<rparr>,
              fillLevel (rxBuffer u))"
  using assms by (simp add: rxBytesAvailable_def xSemaphoreTake_def xSemaphoreGive_def Let_def)

text \<open>
  \<open>writeLine\<close> rejects a line longer than the transmit buffer. For a line of two or
  more characters that fits, it hands the leading \<open>strlen line - 1\<close> characters to
  \<open>writeBytes\<close>, pushes one \<open>'\n'\<close> and returns the length of the line.
\<close>

lemma writeLine_too_long:
  "unat (length_bytes (txBuffer u)) < strlen line \<Longrightarrow> writeLine mb u line = Some (mb, u, 0)"
  by (simp add: writeLine_def Let_def)

lemma writeLine_two_or_more:
  assumes mx: "mutex (txBuffer u) = Available"
    and k2: "2 \<le> strlen line"
    and kl: "strlen line \<le> unat (length_bytes (txBuffer u))"
  shows "\<exists>mb1 u1 mb2 t2.
           writeBytes mb u line (word_of_nat (strlen line - 1))
             = (mb1, u1, word_of_nat (strlen line - 1)) \<and>
           bufferPush mb1 (txBuffer u1) 0x0A = Some (mb2, t2) \<and>
           writeLine mb u line = Some (mb2, u1\<lparr>txBuffer := t2\<rparr>, word_of_nat (strlen line))"
proof -
  define k where "k = strlen line"
  define n :: uint16_t where "n = word_of_nat (k - 1)"
  have kb: "k - 1 < 65536"
    using kl u16_bound [of "length_bytes (txBuffer u)"] by (simp add: k_def)
  have st: "size_t (int k - 1) = k - 1"
    using k2 kb by (simp add: size_t_def k_def nat_diff_distrib')
  have un: "unat n = k - 1"
    using kb by (simp add: n_def unat_of_nat)
  have nz: "n \<noteq> 0"
    using un k2 by (auto simp add: k_def)
  have nl: "n \<le> length_bytes (txBuffer u)"
    using un kl by (simp add: word_le_nat_alt k_def)
  obtain mb1 u1 where wb: "writeBytes mb u line n = (mb1, u1, n)"
    and m1: "mutex (txBuffer u1) = Available"
    using writeBytes_Available [OF mx nl, of mb line] mx by simp
  obtain mb2 t2 where ps: "bufferPush mb1 (txBuffer u1) 0x0A = Some (mb2, t2)"
    using bufferPush_Available [OF m1] by blast
  have "writeLine mb u line = Some (mb2, u1\<lparr>txBuffer := t2\<rparr>, word_of_nat k)"
    using kl wb ps nz
    by (simp add: writeLine_def Let_def k_def [symmetric] st n_def [symmetric]
          del: One_nat_def)
  with wb ps show ?thesis
    by (simp add: k_def n_def)
qed

end
